theory Spec2Isabelle
  imports Main "HOL-Library.List_Lexorder" "HOL-Library.Sublist"
begin

unbundle bit_operations_syntax

section \<open>Python strings\<close>

text \<open>
  A Python \<^verbatim>\<open>str\<close> is a sequence of Unicode code points and \<^verbatim>\<open>len\<close> counts code
  points, so a string is modelled as a list of code points (natural numbers), not as a
  list of bytes. \<open>ascii\<close> embeds an ASCII literal of the source.
\<close>

type_synonym ustr = "nat list"

definition ascii :: "string \<Rightarrow> ustr" where
  "ascii s = map of_char s"

text \<open>
  \<^verbatim>\<open>str.isspace\<close> of one character; the regular expression class \<^verbatim>\<open>\s\<close> of a
  \<^verbatim>\<open>str\<close> pattern is the same set of code points.
\<close>

definition is_space :: "nat \<Rightarrow> bool" where
  "is_space c \<longleftrightarrow>
     (9 \<le> c \<and> c \<le> 13) \<or> (28 \<le> c \<and> c \<le> 32) \<or> c = 133 \<or> c = 160 \<or> c = 5760 \<or>
     (8192 \<le> c \<and> c \<le> 8202) \<or> c = 8232 \<or> c = 8233 \<or> c = 8239 \<or> c = 8287 \<or>
     c = 12288"

definition lstrip :: "ustr \<Rightarrow> ustr" where
  "lstrip s = dropWhile is_space s"

definition rstrip :: "ustr \<Rightarrow> ustr" where
  "rstrip s = rev (dropWhile is_space (rev s))"

definition strip :: "ustr \<Rightarrow> ustr" where
  "strip s = rstrip (lstrip s)"

text \<open>\<^verbatim>\<open>x or ""\<close> for a value that is a string or \<^verbatim>\<open>None\<close>.\<close>

definition or_empty :: "ustr option \<Rightarrow> ustr" where
  "or_empty t = (case t of None \<Rightarrow> [] | Some s \<Rightarrow> s)"

text \<open>
  \<^verbatim>\<open>str.lower\<close>. The ASCII capitals map to their small letters. Two code points
  outside ASCII have a lower case that contains an ASCII letter (U+0130 and U+212A);
  every other code point outside ASCII maps to code points outside ASCII by the Unicode
  tables, which are not reproduced here: such a code point is kept as it is.
\<close>

definition lower_cp :: "nat \<Rightarrow> ustr" where
  "lower_cp c =
     (if 65 \<le> c \<and> c \<le> 90 then [c + 32]
      else if c = 304 then [105, 775]
      else if c = 8490 then [107]
      else [c])"

definition py_lower :: "ustr \<Rightarrow> ustr" where
  "py_lower s = concat (map lower_cp s)"

text \<open>\<^verbatim>\<open>s.startswith(k)\<close> and \<^verbatim>\<open>k in s\<close>.\<close>

fun starts_with :: "ustr \<Rightarrow> ustr \<Rightarrow> bool" where
  "starts_with s [] = True"
| "starts_with [] (k # ks) = False"
| "starts_with (c # s) (k # ks) = (c = k \<and> starts_with s ks)"

fun contains :: "ustr \<Rightarrow> ustr \<Rightarrow> bool" where
  "contains [] k = (k = [])"
| "contains (c # s) k = (starts_with (c # s) k \<or> contains s k)"

text \<open>A string that \<^verbatim>\<open>strip\<close> leaves as it is.\<close>

definition stripped :: "ustr \<Rightarrow> bool" where
  "stripped s \<longleftrightarrow> s = [] \<or> (\<not> is_space (hd s) \<and> \<not> is_space (last s))"

section \<open>The relevance filter\<close>

text \<open>
  \<^verbatim>\<open>
  def looks_like_patriots(title: str) -> bool:
      t = (title or "").lower()
      return any(k in t for k in ["patriot", "new england", "foxboro", "gillette"])
  \<close>
\<close>

definition KEYWORDS :: "ustr list" where
  "KEYWORDS = [ascii ''patriot'', ascii ''new england'', ascii ''foxboro'', ascii ''gillette'']"

definition looks_like_patriots :: "ustr option \<Rightarrow> bool" where
  "looks_like_patriots title =
     (let t = py_lower (or_empty title) in list_ex (\<lambda>k. contains t k) KEYWORDS)"

section \<open>The seen-set store\<close>

text \<open>
  The file \<^verbatim>\<open>seen.txt\<close> is read and written in text mode: its state is
  \<open>None\<close> when the file does not exist and otherwise the text it holds. Reading in
  text mode translates \<^verbatim>\<open>\r\n\<close> and a lone \<^verbatim>\<open>\r\<close> to \<^verbatim>\<open>\n\<close>;
  iterating over the file yields its lines, each with its line end, and a last line
  without one when the text does not end in a newline.
  \<^verbatim>\<open>
  def load_seen():
      if not os.path.exists(SEEN_FILE):
          return set()
      with open(SEEN_FILE, "r", encoding="utf-8") as f:
          return set(line.strip() for line in f if line.strip())

  def save_seen(seen):
      with open(SEEN_FILE, "w", encoding="utf-8") as f:
          for h in sorted(seen):
              f.write(h + "\n")
  \<close>
  \<^verbatim>\<open>sorted\<close> orders strings lexicographically by code point, which is the order of
  lists of natural numbers.
\<close>

fun universal_newlines :: "ustr \<Rightarrow> ustr" where
  "universal_newlines [] = []"
| "universal_newlines [c] = [if c = 13 then 10 else c]"
| "universal_newlines (c # d # s) =
     (if c = 13 \<and> d = 10 then 10 # universal_newlines s
      else if c = 13 then 10 # universal_newlines (d # s)
      else c # universal_newlines (d # s))"

fun file_lines :: "ustr \<Rightarrow> ustr list" where
  "file_lines [] = []"
| "file_lines (c # s) =
     (if c = 10 then [10] # file_lines s
      else (case file_lines s of [] \<Rightarrow> [[c]] | l # ls \<Rightarrow> (c # l) # ls))"

definition load_seen :: "ustr option \<Rightarrow> ustr set" where
  "load_seen f =
     (case f of
        None \<Rightarrow> {}
      | Some text \<Rightarrow>
          set (map strip (filter (\<lambda>line. strip line \<noteq> []) (file_lines (universal_newlines text)))))"

definition save_seen :: "ustr set \<Rightarrow> ustr option" where
  "save_seen seen = Some (concat (map (\<lambda>h. h @ [10]) (sorted_list_of_set seen)))"

section \<open>Regular expressions\<close>

text \<open>
  The two patterns of the source are sequences of character classes with a repetition
  range each, the first one followed by \<^verbatim>\<open>$\<close>. A \<open>Piece cls lo hi\<close> stands for
  \<^verbatim>\<open>[cls]{lo,hi}\<close> (no upper bound when \<open>hi\<close> is \<open>None\<close>). Matching is that of
  Python's backtracking matcher: every piece is greedy, so the longest repetition is tried
  first and shorter ones after it, and the result lists the text matched by each piece.
  With \<open>at_end\<close> the match has to end where \<^verbatim>\<open>$\<close> matches: at the end of the
  string or before a newline that ends the string.
\<close>

datatype piece = Piece "nat \<Rightarrow> bool" nat "nat option"

fun first_some :: "'a option list \<Rightarrow> 'a option" where
  "first_some [] = None"
| "first_some (None # xs) = first_some xs"
| "first_some (Some x # xs) = Some x"

fun match_pieces :: "piece list \<Rightarrow> bool \<Rightarrow> ustr \<Rightarrow> ustr list option" where
  "match_pieces [] at_end s = (if at_end \<and> s \<noteq> [] \<and> s \<noteq> [10] then None else Some [])"
| "match_pieces (Piece cls lo hi # ps) at_end s =
     (let avail = length (takeWhile cls s);
          top = (case hi of None \<Rightarrow> avail | Some h \<Rightarrow> min h avail)
      in first_some
           (map (\<lambda>k. map_option ((#) (take k s)) (match_pieces ps at_end (drop k s)))
                (rev [lo..<Suc top])))"

text \<open>
  \<^verbatim>\<open>re.search\<close> tries the start positions from left to right; the result is the start
  and the pieces of the first match.
\<close>

definition re_search :: "piece list \<Rightarrow> bool \<Rightarrow> ustr \<Rightarrow> (nat \<times> ustr list) option" where
  "re_search ps at_end s =
     first_some (map (\<lambda>i. map_option (Pair i) (match_pieces ps at_end (drop i s)))
                     [0..<Suc (length s)])"

lemma first_some_Cons:
  "first_some (x # xs) = (case x of None \<Rightarrow> first_some xs | Some y \<Rightarrow> Some y)"
  by (cases x) auto

lemma first_some_map: "first_some (map f xs) = Some y \<Longrightarrow> \<exists>x\<in>set xs. f x = Some y"
  by (induction xs) (auto simp: first_some_Cons split: option.splits)

lemma match_pieces_concat:
  "match_pieces ps e s = Some ms \<Longrightarrow> \<exists>r. s = concat ms @ r"
proof (induction ps arbitrary: s ms)
  case Nil
  then show ?case by (simp split: if_splits)
next
  case (Cons p ps)
  obtain cls lo hi where p: "p = Piece cls lo hi" by (cases p)
  from Cons.prems obtain k where
    k: "map_option ((#) (take k s)) (match_pieces ps e (drop k s)) = Some ms"
    unfolding p match_pieces.simps Let_def by (blast dest: first_some_map)
  then obtain ms' where ms': "match_pieces ps e (drop k s) = Some ms'" "ms = take k s # ms'"
    by auto
  from Cons.IH [OF ms'(1)] obtain r where "drop k s = concat ms' @ r" by blast
  then have "s = concat ms @ r"
    using ms'(2) by (metis append_assoc append_take_drop_id concat.simps(2))
  then show ?case by blast
qed

lemma re_search_bounds:
  assumes "re_search ps e s = Some (i, ms)"
  shows "i + length (concat ms) \<le> length s"
proof -
  from assms obtain j where j0: "j \<in> set [0..<Suc (length s)]"
    and j1: "map_option (Pair j) (match_pieces ps e (drop j s)) = Some (i, ms)"
    unfolding re_search_def by (blast dest: first_some_map)
  from j0 have j: "j \<le> length s" by auto
  note j = j j1
  then have "j = i" "match_pieces ps e (drop i s) = Some ms" by auto
  then obtain r where "drop i s = concat ms @ r" using match_pieces_concat by blast
  then have "length s - i = length (concat ms) + length r"
    by (metis length_append length_drop)
  with j(1) \<open>j = i\<close> show ?thesis by simp
qed

text \<open>
  \<^verbatim>\<open>re.sub(pattern, "", s)\<close>: the matches, found from left to right without overlap,
  are deleted. A pattern that matches the empty string deletes nothing there and the
  search goes on one character later.
\<close>

function re_sub_empty :: "piece list \<Rightarrow> bool \<Rightarrow> ustr \<Rightarrow> ustr" where
  "re_sub_empty ps at_end s =
     (case re_search ps at_end s of
        None \<Rightarrow> s
      | Some (i, ms) \<Rightarrow>
          (let n = length (concat ms) in
           if n = 0 then
             (if i < length s then take (Suc i) s @ re_sub_empty ps at_end (drop (Suc i) s) else s)
           else take i s @ re_sub_empty ps at_end (drop (i + n) s)))"
  by pat_completeness auto
termination
proof (relation "measure (\<lambda>(ps, e, s). length s)")
  show "wf (measure (\<lambda>(ps, e, s). length s))" by simp
next
  fix ps e s x2 i ms n
  assume "re_search ps e s = Some x2" "(i, ms) = x2" "n = length (concat ms)" "n = 0"
    "i < length s"
  then show "((ps, e, drop (Suc i) s), (ps, e, s)) \<in> measure (\<lambda>(ps, e, s). length s)"
    by simp
next
  fix ps e s x2 i ms n
  assume a: "re_search ps e s = Some x2" "(i, ms) = x2" "n = length (concat ms)" "n \<noteq> 0"
  then have "i + n \<le> length s" using re_search_bounds by metis
  with a(4) show "((ps, e, drop (i + n) s), (ps, e, s)) \<in> measure (\<lambda>(ps, e, s). length s)"
    by simp
qed

declare re_sub_empty.simps [simp del]

section \<open>The library function \<^verbatim>\<open>textwrap.shorten\<close>\<close>

text \<open>
  \<^verbatim>\<open>textwrap.shorten(text, width, placeholder)\<close> of CPython 3.11 is
  \<^verbatim>\<open>TextWrapper(width, max_lines=1, placeholder).fill(' '.join(text.strip().split()))\<close>.
  The model follows the library: the text is collapsed, split into chunks by the
  wrapper's word separator pattern, and the chunks are laid out on one line.
  The wrapper raises \<^verbatim>\<open>ValueError\<close> for a width of zero and for a placeholder longer
  than the width; the source calls it with 200 and \<^verbatim>\<open>"..."\<close>, which pass both checks.
  After collapsing, the only whitespace is a single space between words, so the wrapper's
  tab expansion and whitespace replacement change nothing.

  \<^verbatim>\<open>str.split()\<close> without argument and \<^verbatim>\<open>sep.join(xs)\<close>:
\<close>

function split_ws :: "ustr \<Rightarrow> ustr list" where
  "split_ws s =
     (case dropWhile is_space s of
        [] \<Rightarrow> []
      | c # r \<Rightarrow> (c # takeWhile (\<lambda>x. \<not> is_space x) r) # split_ws (dropWhile (\<lambda>x. \<not> is_space x) r))"
  by pat_completeness auto
termination
proof (relation "measure length")
  show "wf (measure length)" by simp
next
  fix s :: ustr and c r
  assume a: "dropWhile is_space s = c # r"
  have "length (dropWhile (\<lambda>x. \<not> is_space x) r) \<le> length r" by (rule length_dropWhile_le)
  moreover have "length (c # r) \<le> length s"
    using length_dropWhile_le [of is_space s] a by simp
  ultimately show "(dropWhile (\<lambda>x. \<not> is_space x) r, s) \<in> measure length" by simp
qed

fun join :: "ustr \<Rightarrow> ustr list \<Rightarrow> ustr" where
  "join sep [] = []"
| "join sep [x] = x"
| "join sep (x # y # ys) = x @ sep @ join sep (y # ys)"

text \<open>
  The character classes of the word separator pattern: the wrapper's own whitespace,
  \<^verbatim>\<open>\w\<close>, \<^verbatim>\<open>\d\<close>, a letter \<^verbatim>\<open>[^\d\W]\<close> and \<^verbatim>\<open>[\w!"'&.,?]\<close>. The classes
  \<^verbatim>\<open>\w\<close> and \<^verbatim>\<open>\d\<close> are given on ASCII; the Unicode tables that extend them to
  other code points are not reproduced, and a code point outside ASCII counts as neither.
\<close>

definition is_tw_space :: "nat \<Rightarrow> bool" where
  "is_tw_space c \<longleftrightarrow> (9 \<le> c \<and> c \<le> 13) \<or> c = 32"

definition is_digit :: "nat \<Rightarrow> bool" where
  "is_digit c \<longleftrightarrow> 48 \<le> c \<and> c \<le> 57"

definition is_word :: "nat \<Rightarrow> bool" where
  "is_word c \<longleftrightarrow> (48 \<le> c \<and> c \<le> 57) \<or> (65 \<le> c \<and> c \<le> 90) \<or> c = 95 \<or> (97 \<le> c \<and> c \<le> 122)"

definition is_letter :: "nat \<Rightarrow> bool" where
  "is_letter c \<longleftrightarrow> is_word c \<and> \<not> is_digit c"

definition is_word_punct :: "nat \<Rightarrow> bool" where
  "is_word_punct c \<longleftrightarrow> is_word c \<or> c = 33 \<or> c = 34 \<or> c = 39 \<or> c = 38 \<or> c = 46 \<or> c = 44 \<or> c = 63"

text \<open>
  The pattern splits the text into chunks, tried in this order at each position:
  a run of whitespace; a run of two or more hyphens after a \<open>is_word_punct\<close> character
  and before a \<^verbatim>\<open>\w\<close>; a word, which is the shortest non-empty run of non-whitespace
  that ends with a hyphen between letters (two letters, or letter-hyphen-letter, on
  either side), or before whitespace or the end of the text, or after a
  \<open>is_word_punct\<close> character before such a run of hyphens. \<open>left\<close> is the text before the
  position, reversed, as the look-behind assertions see it.
\<close>

definition em_dash_at :: "ustr \<Rightarrow> bool" where
  "em_dash_at s =
     (let h = length (takeWhile (\<lambda>c. c = 45) s)
      in 2 \<le> h \<and> (case drop h s of [] \<Rightarrow> False | c # _ \<Rightarrow> is_word c))"

fun letter_pair :: "ustr \<Rightarrow> bool" where
  "letter_pair (a # b # rest) =
     (is_letter a \<and> (is_letter b \<or> (b = 45 \<and> (case rest of [] \<Rightarrow> False | c # _ \<Rightarrow> is_letter c))))"
| "letter_pair _ = False"

fun word_rest :: "ustr \<Rightarrow> ustr \<Rightarrow> nat" where
  "word_rest left [] = 0"
| "word_rest left (c # r) =
     (if c = 45 \<and> letter_pair left \<and> letter_pair r then 1
      else if is_tw_space c then 0
      else if (case left of [] \<Rightarrow> False | p # _ \<Rightarrow> is_word_punct p) \<and> em_dash_at (c # r) then 0
      else Suc (word_rest (c # left) r))"

definition chunk_len :: "ustr \<Rightarrow> ustr \<Rightarrow> nat" where
  "chunk_len left s =
     (case s of
        [] \<Rightarrow> 0
      | c # r \<Rightarrow>
          if is_tw_space c then length (takeWhile is_tw_space s)
          else if (case left of [] \<Rightarrow> False | p # _ \<Rightarrow> is_word_punct p) \<and> em_dash_at s
          then length (takeWhile (\<lambda>x. x = 45) s)
          else Suc (word_rest (c # left) r))"

lemma chunk_len_pos: "s \<noteq> [] \<Longrightarrow> 0 < chunk_len left s"
  by (cases s) (auto simp: chunk_len_def em_dash_at_def Let_def)

function wordsep_split :: "ustr \<Rightarrow> ustr \<Rightarrow> ustr list" where
  "wordsep_split left s =
     (if s = [] then []
      else (let n = chunk_len left s
            in take n s # wordsep_split (rev (take n s) @ left) (drop n s)))"
  by pat_completeness auto
termination
proof (relation "measure (\<lambda>(left, s). length s)")
  show "wf (measure (\<lambda>(left, s). length s))" by simp
next
  fix left s :: ustr and n
  assume "s \<noteq> []" "n = chunk_len left s"
  then show "((rev (take n s) @ left, drop n s), (left, s)) \<in> measure (\<lambda>(left, s). length s)"
    using chunk_len_pos [of s left] by simp
qed

text \<open>
  \<^verbatim>\<open>TextWrapper._wrap_chunks\<close> with \<^verbatim>\<open>max_lines=1\<close> and no indent. \<open>take_fitting\<close> is
  the inner loop that moves chunks to the current line while they fit;
  \<open>handle_long_word\<close> breaks a chunk that is longer than the width, after its last
  hyphen when that leaves something before it; \<open>line_step\<close> is one pass of the outer
  loop up to the current line, with a whitespace chunk at its end dropped.
\<close>

fun take_fitting :: "ustr list \<Rightarrow> nat \<Rightarrow> nat \<Rightarrow> ustr list \<times> ustr list" where
  "take_fitting [] cur_len width = ([], [])"
| "take_fitting (c # cs) cur_len width =
     (if cur_len + length c \<le> width
      then (case take_fitting cs (cur_len + length c) width of (line, rest) \<Rightarrow> (c # line, rest))
      else ([], c # cs))"

definition rfind_hyphen :: "ustr \<Rightarrow> nat \<Rightarrow> nat option" where
  "rfind_hyphen chunk n =
     (case filter (\<lambda>i. chunk ! i = 45) (rev [0..<min n (length chunk)]) of
        [] \<Rightarrow> None
      | h # _ \<Rightarrow> Some h)"

definition handle_long_word :: "ustr list \<Rightarrow> ustr list \<Rightarrow> nat \<Rightarrow> nat \<Rightarrow> ustr list \<times> ustr list" where
  "handle_long_word chunks cur_line cur_len width =
     (case chunks of
        [] \<Rightarrow> (cur_line, [])
      | chunk # rest \<Rightarrow>
          (let space_left = (if width < 1 then 1 else width - cur_len);
               end = (if space_left < length chunk
                      then (case rfind_hyphen chunk space_left of
                              None \<Rightarrow> space_left
                            | Some h \<Rightarrow>
                                if 0 < h \<and> list_ex (\<lambda>c. c \<noteq> 45) (take h chunk) then h + 1
                                else space_left)
                      else space_left)
           in (cur_line @ [take end chunk], drop end chunk # rest)))"

fun placeholder_line :: "ustr list \<Rightarrow> nat \<Rightarrow> nat \<Rightarrow> ustr \<Rightarrow> ustr" where
  "placeholder_line [] cur_len width ph = lstrip ph"
| "placeholder_line (c # cs) cur_len width ph =
     (if strip c \<noteq> [] \<and> cur_len + length ph \<le> width then concat (rev (c # cs)) @ ph
      else placeholder_line cs (cur_len - length c) width ph)"

definition total :: "ustr list \<Rightarrow> nat" where
  "total cur_line = sum_list (map length cur_line)"

definition line_step :: "ustr list \<Rightarrow> nat \<Rightarrow> ustr list \<times> ustr list" where
  "line_step chunks width =
     (case take_fitting chunks 0 width of (line0, rest0) \<Rightarrow>
        (case (if rest0 \<noteq> [] \<and> width < length (hd rest0)
               then handle_long_word rest0 line0 (total line0) width
               else (line0, rest0)) of (line1, rest1) \<Rightarrow>
           (if line1 \<noteq> [] \<and> strip (last line1) = [] then butlast line1 else line1, rest1)))"

lemma take_fitting_split: "take_fitting cs n w = (line, rest) \<Longrightarrow> cs = line @ rest"
  by (induction cs arbitrary: n line rest) (auto split: if_splits prod.splits)

lemma take_fitting_empty:
  "take_fitting cs n w = ([], rest) \<Longrightarrow> cs = [] \<or> w < n + length (hd cs)"
  by (cases cs) (auto split: if_splits prod.splits)

lemma line_step_progress:
  assumes "line_step chunks width = ([], rest)" and "chunks \<noteq> []"
  shows "length rest + total rest < length chunks + total chunks"
proof -
  obtain line0 rest0 where tf: "take_fitting chunks 0 width = (line0, rest0)"
    by (cases "take_fitting chunks 0 width")
  have split: "chunks = line0 @ rest0" using tf by (rule take_fitting_split)
  show ?thesis
  proof (cases "rest0 \<noteq> [] \<and> width < length (hd rest0)")
    case False
    have ls: "line_step chunks width =
        (if line0 \<noteq> [] \<and> strip (last line0) = [] then butlast line0 else line0, rest0)"
      unfolding line_step_def tf prod.case if_not_P [OF False] ..
    with assms(1) have r: "rest = rest0" and l: "line0 = [] \<or> butlast line0 = []"
      by (auto split: if_splits)
    have "line0 \<noteq> []"
    proof
      assume "line0 = []"
      with tf assms(2) have "width < 0 + length (hd chunks)"
        using take_fitting_empty by blast
      moreover from \<open>line0 = []\<close> split have "rest0 = chunks" by simp
      ultimately show False using False assms(2) by simp
    qed
    with l obtain w where "line0 = [w]" by (cases line0) (auto split: if_splits)
    with split r show ?thesis by (simp add: total_def)
  next
    case True
    then obtain chunk cs where rest0: "rest0 = chunk # cs" by (cases rest0) auto
    obtain line1 rest1 where h: "handle_long_word rest0 line0 (total line0) width = (line1, rest1)"
      by (cases "handle_long_word rest0 line0 (total line0) width")
    from h obtain e where line1: "line1 = line0 @ [take e chunk]" and rest1: "rest1 = drop e chunk # cs"
      and e: "e = (let space_left = (if width < 1 then 1 else width - total line0) in
                   if space_left < length chunk
                      then (case rfind_hyphen chunk space_left of
                              None \<Rightarrow> space_left
                            | Some h \<Rightarrow>
                                if 0 < h \<and> list_ex (\<lambda>c. c \<noteq> 45) (take h chunk) then h + 1
                                else space_left)
                      else space_left)"
      by (auto simp: handle_long_word_def rest0 Let_def)
    have ls: "line_step chunks width =
        (if line1 \<noteq> [] \<and> strip (last line1) = [] then butlast line1 else line1, rest1)"
      unfolding line_step_def tf prod.case if_P [OF True] h ..
    with assms(1) line1 have r: "rest = rest1" and l0: "line0 = []"
      by (auto split: if_splits)
    from l0 have "total line0 = 0" by (simp add: total_def)
    with e have "0 < e" by (auto simp: Let_def split: option.splits if_splits)
    moreover from True rest0 have "0 < length chunk" by auto
    ultimately have "length (drop e chunk) < length chunk" by simp
    with split l0 rest0 r rest1 show ?thesis by (simp add: total_def)
  qed
qed

text \<open>
  The outer loop. A pass that leaves the current line empty goes on with the remaining
  chunks. Otherwise the line is kept when nothing but one whitespace chunk remains and
  it fits (the next pass then drops that chunk and the loop ends); if not, chunks are
  removed from its end until the placeholder fits after a chunk that is not whitespace,
  and the loop is left.
\<close>

function wrap_chunks :: "ustr list \<Rightarrow> nat \<Rightarrow> ustr \<Rightarrow> ustr list" where
  "wrap_chunks chunks width ph =
     (if chunks = [] then []
      else (case line_step chunks width of (cur_line, rest) \<Rightarrow>
        if cur_line \<noteq> [] then
          (if (rest = [] \<or> (length rest = 1 \<and> strip (hd rest) = [])) \<and> total cur_line \<le> width
           then [concat cur_line]
           else [placeholder_line (rev cur_line) (total cur_line) width ph])
        else wrap_chunks rest width ph))"
  by pat_completeness auto
termination
  apply (relation "measure (\<lambda>(chunks, width, ph). length chunks + total chunks)")
   apply simp
  apply (auto dest: line_step_progress [OF sym])
  done

definition shorten :: "ustr \<Rightarrow> nat \<Rightarrow> ustr \<Rightarrow> ustr" where
  "shorten text width placeholder =
     join [10] (wrap_chunks (wordsep_split [] (join [32] (split_ws (strip text)))) width placeholder)"

declare wrap_chunks.simps [simp del] wordsep_split.simps [simp del] split_ws.simps [simp del]

section \<open>The text composer\<close>

text \<open>
  \<^verbatim>\<open>
  def clean_title(t: str) -> str:
      return re.sub(r"\s*[-\u2013\u2014]\s*[^-\u2013\u2014]{2,}$", "", (t or "").strip())
  \<close>
  The source writes the en dash (U+2013) and the em dash (U+2014) as characters; they
  are written as escapes here and below.
\<close>

definition is_dash :: "nat \<Rightarrow> bool" where
  "is_dash c \<longleftrightarrow> c = 45 \<or> c = 8211 \<or> c = 8212"

definition SITE_SUFFIX :: "piece list" where
  "SITE_SUFFIX =
     [Piece is_space 0 None, Piece is_dash 1 (Some 1), Piece is_space 0 None,
      Piece (\<lambda>c. \<not> is_dash c) 2 None]"

definition clean_title :: "ustr option \<Rightarrow> ustr" where
  "clean_title t = re_sub_empty SITE_SUFFIX True (strip (or_empty t))"

text \<open>
  \<^verbatim>\<open>
  def build_tweet(title: str, source: str, url: str) -> str:
      title = clean_title(title)
      for prefix in [""] + REWORD_PREFIXES:
          maybe = f"{prefix} {title}".strip()
          text = f"{maybe} \u2014 {source}\n{url}{DEFAULT_TAGS}"
          if len(text) <= 280:
              return text
      trimmed = textwrap.shorten(title, width=200, placeholder="...")
      return f"{trimmed} \u2014 {source}\n{url}{DEFAULT_TAGS}"
  \<close>
  \<open>tweet_text\<close> is the format string shared by the loop and the fallback;
  \<open>first_fitting\<close> is the loop, with \<open>None\<close> when it ends without returning.
\<close>

definition DEFAULT_TAGS :: ustr where
  "DEFAULT_TAGS = ascii '' #Patriots #NFL''"

definition REWORD_PREFIXES :: "ustr list" where
  "REWORD_PREFIXES = [ascii ''Update:'', ascii ''Report:'', ascii ''New:'', ascii ''Latest:'']"

definition tweet_text :: "ustr \<Rightarrow> ustr \<Rightarrow> ustr \<Rightarrow> ustr" where
  "tweet_text head source url = head @ [32, 8212, 32] @ source @ [10] @ url @ DEFAULT_TAGS"

fun first_fitting :: "ustr list \<Rightarrow> ustr \<Rightarrow> ustr \<Rightarrow> ustr \<Rightarrow> ustr option" where
  "first_fitting [] title source url = None"
| "first_fitting (p # ps) title source url =
     (let maybe = strip (p @ [32] @ title);
          text = tweet_text maybe source url
      in if length text \<le> 280 then Some text
         else first_fitting ps title source url)"

definition build_tweet :: "ustr option \<Rightarrow> ustr \<Rightarrow> ustr \<Rightarrow> ustr" where
  "build_tweet title source url =
     (let title = clean_title title in
      case first_fitting ([] # REWORD_PREFIXES) title source url of
        Some text \<Rightarrow> text
      | None \<Rightarrow>
          (let trimmed = shorten title 200 (ascii ''...'')
           in tweet_text trimmed source url))"

text \<open>
  The composer as the specification describes it once the prefixes are left out: the
  candidate without prefix when it fits, the fallback otherwise.
\<close>

definition build_tweet_simple :: "ustr option \<Rightarrow> ustr \<Rightarrow> ustr \<Rightarrow> ustr" where
  "build_tweet_simple title source url =
     (let cleaned = clean_title title;
          candidate = tweet_text cleaned source url
      in if length candidate \<le> 280 then candidate
         else tweet_text (shorten cleaned 200 (ascii ''...'')) source url)"

section \<open>Feed items and the image resolver\<close>

text \<open>
  An entry of a parsed feed is a dictionary. The fields the source reads are kept: a
  missing key, and a key with the value \<^verbatim>\<open>None\<close>, is \<open>None\<close> for a string and the empty
  list for a list of sub-dictionaries (\<^verbatim>\<open>entry.get("media_content") or []\<close>).
  The lists are lists by their type, which is what \<^verbatim>\<open>isinstance(media, list)\<close> tests.
\<close>

record media_obj =
  m_url :: "ustr option"

record link_obj =
  l_rel :: "ustr option"
  l_type :: "ustr option"
  l_href :: "ustr option"

record content_obj =
  c_value :: "ustr option"

record entry =
  e_title :: "ustr option"
  e_link :: "ustr option"
  e_media_content :: "media_obj list"
  e_links :: "link_obj list"
  e_media_thumbnail :: "media_obj list"
  e_content :: "content_obj list"
  e_summary :: "ustr option"

text \<open>The truth value of a string or \<^verbatim>\<open>None\<close>: false for \<^verbatim>\<open>None\<close> and for \<^verbatim>\<open>""\<close>.\<close>

definition truthy :: "ustr option \<Rightarrow> bool" where
  "truthy v = (case v of None \<Rightarrow> False | Some s \<Rightarrow> s \<noteq> [])"

text \<open>
  The pattern \<^verbatim>\<open><img[^>]+src="([^"]+)"\<close>; the double quote is the code point 34 and the
  group is the piece at index 10.
\<close>

definition lit :: "nat \<Rightarrow> piece" where
  "lit c = Piece (\<lambda>x. x = c) 1 (Some 1)"

definition IMG_SRC :: "piece list" where
  "IMG_SRC =
     map lit (ascii ''<img'') @ [Piece (\<lambda>c. c \<noteq> 62) 1 None] @ map lit (ascii ''src='' @ [34])
       @ [Piece (\<lambda>c. c \<noteq> 34) 1 None, lit 34]"

definition img_src :: "ustr \<Rightarrow> ustr option" where
  "img_src html =
     (case re_search IMG_SRC False html of
        None \<Rightarrow> None
      | Some (i, ms) \<Rightarrow> Some (ms ! 10))"

text \<open>
  \<^verbatim>\<open>
  def extract_image_url(entry) -> str | None:
      media = entry.get("media_content") or []
      if media and isinstance(media, list) and media[0].get("url"):
          return media[0]["url"]
      for link in entry.get("links", []):
          if link.get("rel") == "enclosure" and "image" in (link.get("type") or ""):
              return link.get("href")
      thumbs = entry.get("media_thumbnail") or []
      if thumbs and isinstance(thumbs, list) and thumbs[0].get("url"):
          return thumbs[0]["url"]
      content_list = entry.get("content") or []
      if content_list:
          html = content_list[0].get("value") or ""
          m = re.search(r'<img[^>]+src="([^"]+)"', html)
          if m:
              return m.group(1)
      summary = entry.get("summary", "")
      m = re.search(r'<img[^>]+src="([^"]+)"', summary or "")
      if m:
          return m.group(1)
      return None
  \<close>
  \<open>first_enclosure\<close> is the loop over the links: \<open>Some r\<close> when it returns \<open>r\<close>, which
  is the \<^verbatim>\<open>href\<close> of the link as it is, \<open>None\<close> when it ends.
\<close>

fun first_enclosure :: "link_obj list \<Rightarrow> ustr option option" where
  "first_enclosure [] = None"
| "first_enclosure (link # links) =
     (if l_rel link = Some (ascii ''enclosure'') \<and> contains (or_empty (l_type link)) (ascii ''image'')
      then Some (l_href link)
      else first_enclosure links)"

definition content_img :: "content_obj list \<Rightarrow> ustr option" where
  "content_img content_list =
     (case content_list of
        [] \<Rightarrow> None
      | c # _ \<Rightarrow> img_src (or_empty (c_value c)))"

definition extract_image_url :: "entry \<Rightarrow> ustr option" where
  "extract_image_url entry =
     (let media = e_media_content entry in
      if media \<noteq> [] \<and> truthy (m_url (hd media)) then m_url (hd media)
      else (case first_enclosure (e_links entry) of
              Some href \<Rightarrow> href
            | None \<Rightarrow>
                (let thumbs = e_media_thumbnail entry in
                 if thumbs \<noteq> [] \<and> truthy (m_url (hd thumbs)) then m_url (hd thumbs)
                 else (case content_img (e_content entry) of
                         Some u \<Rightarrow> Some u
                       | None \<Rightarrow> img_src (or_empty (e_summary entry))))))"

section \<open>The library function \<^verbatim>\<open>urllib.parse.urlparse\<close> and the normalised URL\<close>

text \<open>
  \<^verbatim>\<open>urlparse\<close> of CPython 3.11, for the three components the source reads. Leading
  C0 control characters and spaces are stripped and every tab, carriage return and
  newline is removed. A scheme is split off at the first colon when the text before it
  starts with an ASCII letter and consists of scheme characters. A netloc follows
  \<^verbatim>\<open>//\<close> and ends before the first of \<^verbatim>\<open>/ ? #\<close>. The fragment after the first
  \<^verbatim>\<open>#\<close> and then the query after the first \<^verbatim>\<open>?\<close> are cut off the path; for a scheme that takes parameters, the parameters after the first
  \<^verbatim>\<open>;\<close> of the last path segment are split off the path.
\<close>

definition is_c0_or_space :: "nat \<Rightarrow> bool" where
  "is_c0_or_space c \<longleftrightarrow> c \<le> 32"

definition is_unsafe :: "nat \<Rightarrow> bool" where
  "is_unsafe c \<longleftrightarrow> c = 9 \<or> c = 13 \<or> c = 10"

definition clean_url :: "ustr \<Rightarrow> ustr" where
  "clean_url u = filter (\<lambda>c. \<not> is_unsafe c) (dropWhile is_c0_or_space u)"

definition is_ascii_alpha :: "nat \<Rightarrow> bool" where
  "is_ascii_alpha c \<longleftrightarrow> (65 \<le> c \<and> c \<le> 90) \<or> (97 \<le> c \<and> c \<le> 122)"

definition is_scheme_char :: "nat \<Rightarrow> bool" where
  "is_scheme_char c \<longleftrightarrow>
     is_ascii_alpha c \<or> (48 \<le> c \<and> c \<le> 57) \<or> c = 43 \<or> c = 45 \<or> c = 46"

definition split_scheme :: "ustr \<Rightarrow> ustr \<times> ustr" where
  "split_scheme url =
     (let pre = takeWhile (\<lambda>c. c \<noteq> 58) url in
      if length pre < length url \<and> pre \<noteq> [] \<and> is_ascii_alpha (hd url) \<and> list_all is_scheme_char pre
      then (py_lower pre, drop (Suc (length pre)) url)
      else ([], url))"

definition is_netloc_end :: "nat \<Rightarrow> bool" where
  "is_netloc_end c \<longleftrightarrow> c = 47 \<or> c = 63 \<or> c = 35"

definition split_netloc :: "ustr \<Rightarrow> ustr \<times> ustr" where
  "split_netloc url =
     (if take 2 url = [47, 47]
      then (takeWhile (\<lambda>c. \<not> is_netloc_end c) (drop 2 url),
            dropWhile (\<lambda>c. \<not> is_netloc_end c) (drop 2 url))
      else ([], url))"

text \<open>
  The parser raises \<^verbatim>\<open>ValueError\<close> for a netloc with one bracket but not the other.
  It also validates the host between brackets with the \<^verbatim>\<open>ipaddress\<close> module, and a
  netloc outside ASCII by its NFKC normal form. These two checks depend on the netloc
  only; they are not reproduced, and \<open>host_checks\<close> stands for their verdict: a fixed
  predicate about which nothing is assumed. It is not consulted for a netloc in ASCII
  without brackets.
\<close>

definition host_checks :: "ustr \<Rightarrow> bool" where
  "host_checks = (SOME p. True)"

definition netloc_ok :: "ustr \<Rightarrow> bool" where
  "netloc_ok netloc =
     (if (91 \<in> set netloc) \<noteq> (93 \<in> set netloc) then False
      else if 91 \<notin> set netloc \<and> list_all (\<lambda>c. c < 128) netloc then True
      else host_checks netloc)"

definition USES_PARAMS :: "ustr list" where
  "USES_PARAMS =
     [ascii '''', ascii ''ftp'', ascii ''hdl'', ascii ''prospero'', ascii ''http'', ascii ''imap'',
      ascii ''https'', ascii ''shttp'', ascii ''rtsp'', ascii ''rtspu'', ascii ''sip'',
      ascii ''sips'', ascii ''mms'', ascii ''sftp'', ascii ''tel'']"

text \<open>
  \<^verbatim>\<open>_splitparams\<close>, the path it returns: the last segment starts at the last \<^verbatim>\<open>/\<close>
  (at the start when there is none) and is cut at its first \<^verbatim>\<open>;\<close>.
\<close>

definition split_params :: "ustr \<Rightarrow> ustr" where
  "split_params url =
     (let seg = rev (takeWhile (\<lambda>c. c \<noteq> 47) (rev url));
          k = (if 47 \<in> set url then length url - Suc (length seg) else 0)
      in if 59 \<in> set (drop k url) then take k url @ takeWhile (\<lambda>c. c \<noteq> 59) (drop k url)
         else url)"

definition raw_path :: "ustr \<Rightarrow> ustr" where
  "raw_path rest = takeWhile (\<lambda>c. c \<noteq> 63) (takeWhile (\<lambda>c. c \<noteq> 35) rest)"

record url_parts =
  scheme :: ustr
  netloc :: ustr
  path :: ustr

definition urlparse :: "ustr \<Rightarrow> url_parts option" where
  "urlparse u =
     (let url = clean_url u;
          (sch, rest) = split_scheme url;
          (loc, rest') = split_netloc rest;
          p = raw_path rest'
      in if \<not> netloc_ok loc then None
         else Some \<lparr>scheme = sch, netloc = loc,
                    path = (if sch \<in> set USES_PARAMS \<and> 59 \<in> set p then split_params p else p)\<rparr>)"

text \<open>
  \<^verbatim>\<open>
  def normalize_url(u: str) -> str:
      try:
          p = urlparse(u)
          return f"{p.scheme}://{p.netloc}{p.path}".rstrip("/")
      except Exception:
          return u
  \<close>
\<close>

definition rstrip_slash :: "ustr \<Rightarrow> ustr" where
  "rstrip_slash s = rev (dropWhile (\<lambda>c. c = 47) (rev s))"

definition normalize_url :: "ustr \<Rightarrow> ustr" where
  "normalize_url u =
     (case urlparse u of
        None \<Rightarrow> u
      | Some p \<Rightarrow> rstrip_slash (scheme p @ ascii ''://'' @ netloc p @ path p))"

section \<open>The fingerprint\<close>

text \<open>
  \<^verbatim>\<open>str.encode("utf-8")\<close>. Strings are sequences of Unicode scalar values; a lone
  surrogate, for which Python raises, does not occur in decoded feed text and is encoded
  here like any other code point of its size.
\<close>

definition utf8_cp :: "nat \<Rightarrow> nat list" where
  "utf8_cp c =
     (if c < 128 then [c]
      else if c < 2048 then [192 + c div 64, 128 + c mod 64]
      else if c < 65536 then [224 + c div 4096, 128 + c div 64 mod 64, 128 + c mod 64]
      else [240 + c div 262144, 128 + c div 4096 mod 64, 128 + c div 64 mod 64, 128 + c mod 64])"

definition utf8_encode :: "ustr \<Rightarrow> nat list" where
  "utf8_encode s = concat (map utf8_cp s)"

text \<open>
  \<^verbatim>\<open>hashlib.sha256\<close> (FIPS 180-4) on bytes. A 32-bit word is a natural number below
  \<open>2 ^ 32\<close>, with the wrap-around of the addition and the rotations written out.
\<close>

type_synonym w32 = nat

definition add32 :: "w32 \<Rightarrow> w32 \<Rightarrow> w32" where
  "add32 a b = (a + b) mod 4294967296"

definition rotr :: "nat \<Rightarrow> w32 \<Rightarrow> w32" where
  "rotr n x = x div 2 ^ n + (x mod 2 ^ n) * 2 ^ (32 - n)"

definition K256 :: "w32 list" where
  "K256 =
     [
      1116352408, 1899447441, 3049323471, 3921009573, 961987163, 1508970993,
      2453635748, 2870763221, 3624381080, 310598401, 607225278, 1426881987,
      1925078388, 2162078206, 2614888103, 3248222580, 3835390401, 4022224774,
      264347078, 604807628, 770255983, 1249150122, 1555081692, 1996064986,
      2554220882, 2821834349, 2952996808, 3210313671, 3336571891, 3584528711,
      113926993, 338241895, 666307205, 773529912, 1294757372, 1396182291,
      1695183700, 1986661051, 2177026350, 2456956037, 2730485921, 2820302411,
      3259730800, 3345764771, 3516065817, 3600352804, 4094571909, 275423344,
      430227734, 506948616, 659060556, 883997877, 958139571, 1322822218,
      1537002063, 1747873779, 1955562222, 2024104815, 2227730452, 2361852424,
      2428436474, 2756734187, 3204031479, 3329325298]"

definition H256 :: "w32 list" where
  "H256 =
     [
      1779033703, 3144134277, 1013904242, 2773480762,
      1359893119, 2600822924, 528734635, 1541459225]"

definition small_sigma0 :: "w32 \<Rightarrow> w32" where
  "small_sigma0 x = rotr 7 x XOR rotr 18 x XOR x div 8"

definition small_sigma1 :: "w32 \<Rightarrow> w32" where
  "small_sigma1 x = rotr 17 x XOR rotr 19 x XOR x div 1024"

definition big_sigma0 :: "w32 \<Rightarrow> w32" where
  "big_sigma0 x = rotr 2 x XOR rotr 13 x XOR rotr 22 x"

definition big_sigma1 :: "w32 \<Rightarrow> w32" where
  "big_sigma1 x = rotr 6 x XOR rotr 11 x XOR rotr 25 x"

definition ch :: "w32 \<Rightarrow> w32 \<Rightarrow> w32 \<Rightarrow> w32" where
  "ch e f g = (e AND f) XOR ((4294967295 - e) AND g)"

definition maj :: "w32 \<Rightarrow> w32 \<Rightarrow> w32 \<Rightarrow> w32" where
  "maj a b c = (a AND b) XOR (a AND c) XOR (b AND c)"

text \<open>
  The message schedule, newest word first: \<open>schedule n\<close> adds \<open>n\<close> words to the sixteen
  of the block.
\<close>

fun schedule :: "nat \<Rightarrow> w32 list \<Rightarrow> w32 list" where
  "schedule 0 ws = ws"
| "schedule (Suc n) ws =
     schedule n (add32 (add32 (add32 (small_sigma1 (ws ! 1)) (ws ! 6)) (small_sigma0 (ws ! 14))) (ws ! 15) # ws)"

fun sha_round :: "w32 list \<Rightarrow> w32 \<times> w32 \<Rightarrow> w32 list" where
  "sha_round [a, b, c, d, e, f, g, h] (k, w) =
     (let t1 = add32 (add32 (add32 (add32 h (big_sigma1 e)) (ch e f g)) k) w;
          t2 = add32 (big_sigma0 a) (maj a b c)
      in [add32 t1 t2, a, b, c, add32 d t1, e, f, g])"
| "sha_round s _ = s"

definition be_word :: "nat list \<Rightarrow> w32" where
  "be_word bs = foldl (\<lambda>acc b. acc * 256 + b) 0 bs"

fun words_of :: "nat list \<Rightarrow> w32 list" where
  "words_of (a # b # c # d # rest) = be_word [a, b, c, d] # words_of rest"
| "words_of _ = []"

definition compress :: "w32 list \<Rightarrow> nat list \<Rightarrow> w32 list" where
  "compress hs block =
     (let ws = rev (schedule 48 (rev (words_of block)))
      in map2 add32 hs (foldl sha_round hs (zip K256 ws)))"

function blocks_of :: "nat list \<Rightarrow> nat list list" where
  "blocks_of bs = (if length bs < 64 then [] else take 64 bs # blocks_of (drop 64 bs))"
  by pat_completeness auto
termination by (relation "measure length") auto

declare blocks_of.simps [simp del]

definition be_bytes4 :: "w32 \<Rightarrow> nat list" where
  "be_bytes4 x = [x div 16777216 mod 256, x div 65536 mod 256, x div 256 mod 256, x mod 256]"

definition be_bytes8 :: "nat \<Rightarrow> nat list" where
  "be_bytes8 x = be_bytes4 (x div 4294967296 mod 4294967296) @ be_bytes4 (x mod 4294967296)"

definition pad :: "nat list \<Rightarrow> nat list" where
  "pad msg =
     msg @ [128] @ replicate ((119 - length msg mod 64) mod 64) 0 @ be_bytes8 (8 * length msg)"

definition sha256 :: "nat list \<Rightarrow> nat list" where
  "sha256 msg = concat (map be_bytes4 (foldl compress H256 (blocks_of (pad msg))))"

text \<open>\<^verbatim>\<open>hexdigest\<close>: two lower-case hexadecimal digits for each byte.\<close>

definition hex_digit :: "nat \<Rightarrow> nat" where
  "hex_digit d = (if d < 10 then 48 + d else 87 + d)"

definition hexdigest :: "nat list \<Rightarrow> ustr" where
  "hexdigest bs = concat (map (\<lambda>b. [hex_digit (b div 16), hex_digit (b mod 16)]) bs)"

text \<open>
  \<^verbatim>\<open>
  def item_hash(title: str, url: str) -> str:
      norm = normalize_url(url)
      key = (title or "").strip().lower()
      raw = f"{norm}|{key}"
      return hashlib.sha256(raw.encode("utf-8")).hexdigest()
  \<close>
\<close>

definition item_hash :: "ustr option \<Rightarrow> ustr \<Rightarrow> ustr" where
  "item_hash title url =
     (let norm = normalize_url url;
          key = py_lower (strip (or_empty title));
          raw = norm @ [124] @ key
      in hexdigest (sha256 (utf8_encode raw)))"

section \<open>The run pipeline\<close>

text \<open>
  The collaborators of a run. \<open>w_parse\<close> is \<^verbatim>\<open>feedparser.parse\<close>; \<open>w_fetch\<close> is the
  download of an image (\<open>None\<close> when \<^verbatim>\<open>requests.get\<close> or \<^verbatim>\<open>raise_for_status\<close> raises)
  and \<open>w_media_upload\<close> the upload that returns a media id (\<open>None\<close> when it raises);
  \<open>w_publish\<close> is \<^verbatim>\<open>client.create_tweet\<close>, whose outcome may depend on the number of
  calls made before it in the run.
\<close>

record feed =
  f_title :: "ustr option"
  f_entries :: "entry list"

datatype outcome = Posted | Forbidden | Failed

record world =
  w_parse :: "ustr \<Rightarrow> feed"
  w_fetch :: "ustr \<Rightarrow> nat list option"
  w_media_upload :: "nat list \<Rightarrow> ustr option"
  w_publish :: "nat \<Rightarrow> ustr \<Rightarrow> ustr list option \<Rightarrow> outcome"

text \<open>
  \<^verbatim>\<open>
  def upload_image_to_x(image_url: str) -> str | None:
      try:
          r = requests.get(image_url, timeout=10)
          r.raise_for_status()
          bio = BytesIO(r.content)
          media = api_v1.media_upload(filename="image.jpg", file=bio)
          return media.media_id_string
      except Exception as e:
          logging.warning(f"Image upload failed: {e}")
          return None
  \<close>
\<close>

definition upload_image_to_x :: "world \<Rightarrow> ustr \<Rightarrow> ustr option" where
  "upload_image_to_x w image_url =
     (case w_fetch w image_url of
        None \<Rightarrow> None
      | Some content \<Rightarrow> w_media_upload w content)"

definition FEEDS :: "ustr list" where
  "FEEDS =
     [ascii ''https://www.patspulpit.com/rss/index.xml'', ascii ''https://nesn.com/feed/'',
      ascii ''https://patriotswire.usatoday.com/feed/'', ascii ''https://www.nbcsportsboston.com/feed/'']"

definition MAX_POSTS_PER_RUN :: nat where
  "MAX_POSTS_PER_RUN = 4"

definition POST_IMAGES :: bool where
  "POST_IMAGES = True"

text \<open>
  The state of a run: the seen-set, the counter of posts, the calls of
  \<^verbatim>\<open>create_tweet\<close> made so far, oldest first, each with the fingerprint of its item and
  its outcome, and the feed URLs passed to \<^verbatim>\<open>feedparser.parse\<close> so far, oldest first.
\<close>

record attempt =
  a_hash :: ustr
  a_text :: ustr
  a_media :: "ustr list option"
  a_outcome :: outcome

record run_state =
  seen :: "ustr set"
  posted :: nat
  calls :: "attempt list"
  fetched :: "ustr list"

text \<open>
  The body of the loop over the entries, after the test of the counter:
  \<^verbatim>\<open>
  title = (entry.get("title") or "").strip()
  link  = (entry.get("link") or "").strip()
  if not title or not link:
      continue
  if not looks_like_patriots(title):
      continue
  h = item_hash(title, link)
  if h in seen:
      continue
  tweet_text = build_tweet(title, source, link)
  media_ids = None
  if POST_IMAGES:
      img = extract_image_url(entry)
      if img:
          mid = upload_image_to_x(img)
          if mid:
              media_ids = [mid]
  try:
      if media_ids:
          client.create_tweet(text=tweet_text, media_ids=media_ids)
      else:
          client.create_tweet(text=tweet_text)
      seen.add(h)
      posted += 1
  except tweepy.errors.Forbidden as e:
      logging.error(...)
  except Exception as e:
      logging.error(...)
  time.sleep(TIME_BETWEEN_TWEETS)
  \<close>
\<close>

definition media_ids_of :: "world \<Rightarrow> entry \<Rightarrow> ustr list option" where
  "media_ids_of w entry =
     (if POST_IMAGES then
        (case extract_image_url entry of
           None \<Rightarrow> None
         | Some img \<Rightarrow>
             if img = [] then None
             else (case upload_image_to_x w img of
                     None \<Rightarrow> None
                   | Some mid \<Rightarrow> if mid = [] then None else Some [mid]))
      else None)"

definition process_entry :: "world \<Rightarrow> ustr \<Rightarrow> entry \<Rightarrow> run_state \<Rightarrow> run_state" where
  "process_entry w source entry st =
     (let title = strip (or_empty (e_title entry));
          link = strip (or_empty (e_link entry))
      in if title = [] \<or> link = [] then st
         else if \<not> looks_like_patriots (Some title) then st
         else (let h = item_hash (Some title) link in
               if h \<in> seen st then st
               else (let tweet_text = build_tweet (Some title) source link;
                         media_ids = media_ids_of w entry;
                         r = w_publish w (length (calls st)) tweet_text media_ids;
                         call = \<lparr>a_hash = h, a_text = tweet_text, a_media = media_ids, a_outcome = r\<rparr>
                     in case r of
                          Posted \<Rightarrow>
                            st\<lparr>seen := insert h (seen st), posted := posted st + 1,
                               calls := calls st @ [call]\<rparr>
                        | Forbidden \<Rightarrow> st\<lparr>calls := calls st @ [call]\<rparr>
                        | Failed \<Rightarrow> st\<lparr>calls := calls st @ [call]\<rparr>)))"

text \<open>
  The two loops:
  \<^verbatim>\<open>
  for feed_url in FEEDS:
      if posted >= MAX_POSTS_PER_RUN:
          break
      parsed = feedparser.parse(feed_url)
      source = parsed.feed.get("title", "Source")
      for entry in parsed.entries[:12]:
          if posted >= MAX_POSTS_PER_RUN:
              break
          ...
  \<close>
\<close>

fun run_entries :: "world \<Rightarrow> ustr \<Rightarrow> entry list \<Rightarrow> run_state \<Rightarrow> run_state" where
  "run_entries w source [] st = st"
| "run_entries w source (entry # entries) st =
     (if MAX_POSTS_PER_RUN \<le> posted st then st
      else run_entries w source entries (process_entry w source entry st))"

definition source_of :: "feed \<Rightarrow> ustr" where
  "source_of parsed = (case f_title parsed of None \<Rightarrow> ascii ''Source'' | Some t \<Rightarrow> t)"

fun run_feeds :: "world \<Rightarrow> ustr list \<Rightarrow> run_state \<Rightarrow> run_state" where
  "run_feeds w [] st = st"
| "run_feeds w (feed_url # feed_urls) st =
     (if MAX_POSTS_PER_RUN \<le> posted st then st
      else (let parsed = w_parse w feed_url;
                source = source_of parsed
            in run_feeds w feed_urls
                 (run_entries w source (take 12 (f_entries parsed))
                    (st\<lparr>fetched := fetched st @ [feed_url]\<rparr>))))"

text \<open>
  \<^verbatim>\<open>
  def run_bot():
      seen = load_seen()
      posted = 0
      for feed_url in FEEDS: ...
      save_seen(seen)
  \<close>
  A run takes the collaborators and the state of \<^verbatim>\<open>seen.txt\<close>, and returns the new state
  of the file with the final state of the run.
\<close>

definition run_bot :: "world \<Rightarrow> ustr option \<Rightarrow> ustr option \<times> run_state" where
  "run_bot w file =
     (let st = run_feeds w FEEDS \<lparr>seen = load_seen file, posted = 0, calls = [], fetched = []\<rparr>
      in (save_seen (seen st), st))"

section \<open>Notions used in the results\<close>

text \<open>
  The calls of a run that succeeded; the fingerprint the pipeline computes for an entry;
  an entry that passes the tests on its title and link and the relevance filter; and the
  call of \<^verbatim>\<open>create_tweet\<close> the pipeline makes for an entry in a state.
\<close>

definition successes :: "run_state \<Rightarrow> attempt list" where
  "successes st = filter (\<lambda>a. a_outcome a = Posted) (calls st)"

definition fingerprint :: "entry \<Rightarrow> ustr" where
  "fingerprint entry =
     item_hash (Some (strip (or_empty (e_title entry)))) (strip (or_empty (e_link entry)))"

definition eligible :: "entry \<Rightarrow> bool" where
  "eligible entry \<longleftrightarrow>
     strip (or_empty (e_title entry)) \<noteq> [] \<and> strip (or_empty (e_link entry)) \<noteq> []
     \<and> looks_like_patriots (Some (strip (or_empty (e_title entry))))"

definition attempt_of :: "world \<Rightarrow> ustr \<Rightarrow> entry \<Rightarrow> run_state \<Rightarrow> attempt" where
  "attempt_of w source entry st =
     (let text = build_tweet (Some (strip (or_empty (e_title entry)))) source
                   (strip (or_empty (e_link entry)));
          media_ids = media_ids_of w entry
      in \<lparr>a_hash = fingerprint entry, a_text = text, a_media = media_ids,
          a_outcome = w_publish w (length (calls st)) text media_ids\<rparr>)"

text \<open>
  The entries a run iterates over, in order, each with the source label of its feed,
  and the two loops as one loop over them.
\<close>

definition feed_items :: "world \<Rightarrow> ustr list \<Rightarrow> (ustr \<times> entry) list" where
  "feed_items w feed_urls =
     concat (map (\<lambda>u. map (Pair (source_of (w_parse w u))) (take 12 (f_entries (w_parse w u))))
               feed_urls)"

fun run_items :: "world \<Rightarrow> (ustr \<times> entry) list \<Rightarrow> run_state \<Rightarrow> run_state" where
  "run_items w [] st = st"
| "run_items w ((source, entry) # items) st =
     (if MAX_POSTS_PER_RUN \<le> posted st then st
      else run_items w items (process_entry w source entry st))"

text \<open>
  What a line of \<^verbatim>\<open>seen.txt\<close> can hold after \<^verbatim>\<open>load_seen\<close>, and the invariants of a
  run: the counter counts the successful calls and stays within the maximum, the
  fingerprints of the successful calls are distinct and in the seen-set, and the seen-set
  is the loaded one plus those fingerprints.
\<close>

definition clean_line :: "ustr \<Rightarrow> bool" where
  "clean_line x \<longleftrightarrow> x \<noteq> [] \<and> stripped x \<and> 10 \<notin> set x \<and> 13 \<notin> set x"

definition run_inv :: "run_state \<Rightarrow> bool" where
  "run_inv st \<longleftrightarrow>
     posted st = length (successes st) \<and> posted st \<le> MAX_POSTS_PER_RUN
     \<and> a_hash ` set (successes st) \<subseteq> seen st \<and> distinct (map a_hash (successes st))"

definition seen_inv :: "ustr set \<Rightarrow> run_state \<Rightarrow> bool" where
  "seen_inv S0 st \<longleftrightarrow> seen st = S0 \<union> a_hash ` set (successes st)"

definition calls_clean :: "run_state \<Rightarrow> bool" where
  "calls_clean st \<longleftrightarrow> (\<forall>a\<in>set (calls st). clean_line (a_hash a))"

text \<open>
  Data for the examples: an entry with a title and a link only, a feed without entries,
  the parser of a run in which the first feed holds one relevant entry and the second
  one irrelevant entry, and collaborators that never deliver an image and answer every
  call of \<^verbatim>\<open>create_tweet\<close> with the same outcome.
\<close>

definition no_feed :: feed where
  "no_feed = \<lparr>f_title = None, f_entries = []\<rparr>"

definition item :: "string \<Rightarrow> string \<Rightarrow> entry" where
  "item title link =
     \<lparr>e_title = Some (ascii title), e_link = Some (ascii link), e_media_content = [],
      e_links = [], e_media_thumbnail = [], e_content = [], e_summary = None\<rparr>"

definition two_feeds :: "ustr \<Rightarrow> feed" where
  "two_feeds u =
     (if u = FEEDS ! 0
      then \<lparr>f_title = Some (ascii ''Pats Pulpit''),
            f_entries = [item ''Patriots sign new TE'' ''https://x.com/a'']\<rparr>
      else if u = FEEDS ! 1
      then \<lparr>f_title = None, f_entries = [item ''Celtics win opener'' ''https://x.com/b'']\<rparr>
      else no_feed)"

definition world_of :: "(ustr \<Rightarrow> feed) \<Rightarrow> outcome \<Rightarrow> world" where
  "world_of parse r =
     \<lparr>w_parse = parse, w_fetch = (\<lambda>u. None), w_media_upload = (\<lambda>b. None),
      w_publish = (\<lambda>n t m. r)\<rparr>"

section \<open>Facts about strings\<close>

lemma starts_with_iff: "starts_with s k \<longleftrightarrow> (\<exists>r. s = k @ r)"
  by (induction s k rule: starts_with.induct) auto

lemma contains_iff: "contains s k \<longleftrightarrow> (\<exists>p r. s = p @ k @ r)"
proof (induction s)
  case Nil
  then show ?case by auto
next
  case (Cons c s)
  show ?case
  proof
    assume "contains (c # s) k"
    then consider "starts_with (c # s) k" | "contains s k" by auto
    then show "\<exists>p r. c # s = p @ k @ r"
    proof cases
      case 1
      then obtain r where "c # s = k @ r" by (auto simp: starts_with_iff)
      then have "c # s = [] @ k @ r" by simp
      then show ?thesis by blast
    next
      case 2
      then obtain p r where "s = p @ k @ r" using Cons.IH by blast
      then have "c # s = (c # p) @ k @ r" by simp
      then show ?thesis by blast
    qed
  next
    assume "\<exists>p r. c # s = p @ k @ r"
    then obtain p r where eq: "c # s = p @ k @ r" by blast
    show "contains (c # s) k"
    proof (cases p)
      case Nil
      with eq have "starts_with (c # s) k" by (auto simp: starts_with_iff)
      then show ?thesis by simp
    next
      case (Cons a p')
      with eq have "s = p' @ k @ r" by simp
      then have "contains s k" using Cons.IH by blast
      then show ?thesis by simp
    qed
  qed
qed

lemma rstrip_snoc_space: "is_space c \<Longrightarrow> rstrip (s @ [c]) = rstrip s"
  by (simp add: rstrip_def)

lemma lstrip_append: "\<exists>c\<in>set s. \<not> is_space c \<Longrightarrow> lstrip (s @ t) = lstrip s @ t"
  by (auto simp: lstrip_def dropWhile_append)

lemma lstrip_all_space: "\<forall>c\<in>set s. is_space c \<Longrightarrow> lstrip s = []"
  by (simp add: lstrip_def)

lemma rstrip_all_space: "\<forall>c\<in>set s. is_space c \<Longrightarrow> rstrip s = []"
  by (simp add: rstrip_def)

lemma strip_snoc_space: "is_space c \<Longrightarrow> strip (s @ [c]) = strip s"
proof (cases "\<exists>c\<in>set s. \<not> is_space c")
  case True
  assume "is_space c"
  then show ?thesis using True
    by (simp add: strip_def lstrip_append rstrip_snoc_space flip: append_assoc)
next
  case False
  assume "is_space c"
  then show ?thesis using False
    by (simp add: strip_def lstrip_all_space)
qed

lemma dropWhile_none: "\<forall>c\<in>set s. \<not> P c \<Longrightarrow> dropWhile P s = s"
  by (cases s) auto

lemma strip_no_space: "\<forall>c\<in>set s. \<not> is_space c \<Longrightarrow> strip s = s"
  by (simp add: strip_def lstrip_def rstrip_def dropWhile_none)


lemma is_space_10: "is_space 10" and is_space_13: "is_space 13"
  by (simp_all add: is_space_def)

lemma last_dropWhile: "dropWhile P xs \<noteq> [] \<Longrightarrow> last (dropWhile P xs) = last xs"
  by (induction xs) (auto split: if_splits)

lemma stripped_strip: "stripped (strip t)"
proof -
  let ?u = "dropWhile is_space t"
  let ?v = "dropWhile is_space (rev ?u)"
  have s: "strip t = rev ?v" by (simp add: strip_def lstrip_def rstrip_def)
  show ?thesis
  proof (cases "?v = []")
    case True
    then show ?thesis by (simp add: stripped_def s)
  next
    case False
    have u: "?u \<noteq> []"
    proof
      assume "?u = []"
      then have "?v = []" by (metis dropWhile.simps(1) rev.simps(1))
      with False show False ..
    qed
    have "\<not> is_space (hd ?v)" using False by (rule hd_dropWhile)
    then have a: "\<not> is_space (last (rev ?v))" using False by (simp add: last_rev)
    have "last ?v = last (rev ?u)" using False by (rule last_dropWhile)
    also have "\<dots> = hd ?u" using u by (simp add: last_rev)
    finally have "hd (rev ?v) = hd ?u" using False by (simp add: hd_rev)
    moreover have "\<not> is_space (hd ?u)" using u by (rule hd_dropWhile)
    ultimately have b: "\<not> is_space (hd (rev ?v))" by simp
    from a b show ?thesis unfolding stripped_def s by blast
  qed
qed

lemma strip_stripped: "stripped s \<Longrightarrow> strip s = s"
proof (cases "s = []")
  case True
  then show ?thesis by (simp add: strip_def lstrip_def rstrip_def)
next
  case False
  assume "stripped s"
  with False have h: "\<not> is_space (hd s)" and l: "\<not> is_space (last s)"
    by (auto simp: stripped_def)
  from False h have "dropWhile is_space s = s" by (cases s) auto
  moreover from False l have "dropWhile is_space (rev s) = rev s"
    by (cases s rule: rev_cases) auto
  ultimately show ?thesis by (simp add: strip_def lstrip_def rstrip_def)
qed

lemma strip_space_Cons: "is_space c \<Longrightarrow> strip (c # s) = strip s"
  by (simp add: strip_def lstrip_def)

section \<open>The relevance filter: results\<close>

text \<open>
  Claim C8. The relevance filter is a total function of a title that may be missing. It
  is false for a missing and for an empty title, and it is true exactly when the
  lower-cased title has one of the four fixed keywords as a contiguous substring. It is
  true for "Patriots sign new TE", false for "Celtics win opener" and false for "".
\<close>

theorem looks_like_patriots_spec:
  "\<not> looks_like_patriots None
   \<and> \<not> looks_like_patriots (Some [])
   \<and> (looks_like_patriots title \<longleftrightarrow>
        (\<exists>k. k \<in> set KEYWORDS \<and> sublist k (py_lower (or_empty title))))
   \<and> looks_like_patriots (Some (ascii ''Patriots sign new TE''))
   \<and> \<not> looks_like_patriots (Some (ascii ''Celtics win opener''))
   \<and> \<not> looks_like_patriots (Some (ascii ''''))"
proof -
  have a: "\<not> looks_like_patriots None"
    by (simp add: looks_like_patriots_def or_empty_def py_lower_def KEYWORDS_def ascii_def)
  have b: "\<not> looks_like_patriots (Some [])"
    by (simp add: looks_like_patriots_def or_empty_def py_lower_def KEYWORDS_def ascii_def)
  have c: "looks_like_patriots title \<longleftrightarrow>
        (\<exists>k. k \<in> set KEYWORDS \<and> sublist k (py_lower (or_empty title)))"
    by (auto simp: looks_like_patriots_def list_ex_iff contains_iff sublist_def)
  have d: "looks_like_patriots (Some (ascii ''Patriots sign new TE''))"
    by (simp add: looks_like_patriots_def or_empty_def py_lower_def KEYWORDS_def ascii_def
        lower_cp_def)
  have e: "\<not> looks_like_patriots (Some (ascii ''Celtics win opener''))"
    by (simp add: looks_like_patriots_def or_empty_def py_lower_def KEYWORDS_def ascii_def
        lower_cp_def)
  have f: "\<not> looks_like_patriots (Some (ascii ''''))"
    by (simp add: looks_like_patriots_def or_empty_def py_lower_def KEYWORDS_def ascii_def)
  from a b c d e f show ?thesis by blast
qed

section \<open>The seen-set store: results\<close>

lemma universal_newlines_id: "13 \<notin> set s \<Longrightarrow> universal_newlines s = s"
  by (induction s rule: universal_newlines.induct) auto

lemma file_lines_line: "10 \<notin> set l \<Longrightarrow> file_lines (l @ 10 # r) = (l @ [10]) # file_lines r"
  by (induction l) auto

lemma file_lines_concat:
  "\<forall>l\<in>set ls. 10 \<notin> set l \<Longrightarrow> file_lines (concat (map (\<lambda>l. l @ [10]) ls)) = map (\<lambda>l. l @ [10]) ls"
  by (induction ls) (auto simp: file_lines_line)

lemma load_lines:
  assumes "\<forall>l\<in>set ls. 10 \<notin> set l \<and> 13 \<notin> set l"
  shows "load_seen (Some (concat (map (\<lambda>l. l @ [10]) ls))) =
           {strip l |l. l \<in> set ls \<and> strip l \<noteq> []}"
proof -
  let ?text = "concat (map (\<lambda>l. l @ [10]) ls)"
  have "13 \<notin> set ?text" using assms by auto
  then have un: "universal_newlines ?text = ?text" by (rule universal_newlines_id)
  have fl: "file_lines ?text = map (\<lambda>l. l @ [10]) ls"
    using assms by (intro file_lines_concat) simp
  have "set (map strip (filter (\<lambda>line. strip line \<noteq> []) (map (\<lambda>l. l @ [10]) ls))) =
          {strip l |l. l \<in> set ls \<and> strip l \<noteq> []}"
    by (induction ls) (auto simp: strip_snoc_space is_space_10)
  then show ?thesis
    by (simp add: load_seen_def un fl)
qed

text \<open>
  Claim C7. For every finite set of fingerprints, each a non-empty string without
  whitespace, loading after saving returns the same set. Saving writes the whole set,
  one fingerprint per line, in strictly ascending order. Loading returns the empty set
  when the file does not exist, and reads one stripped fingerprint per line, ignoring
  the lines that are blank.
\<close>

theorem seen_store_roundtrip:
  assumes "finite S" and "\<forall>h\<in>S. h \<noteq> [] \<and> (\<forall>c\<in>set h. \<not> is_space c)"
  shows "load_seen (save_seen S) = S
       \<and> (\<exists>ls. save_seen S = Some (concat (map (\<lambda>h. h @ [10]) ls))
               \<and> sorted ls \<and> distinct ls \<and> set ls = S)
       \<and> load_seen None = {}
       \<and> (\<forall>ls. (\<forall>l\<in>set ls. 10 \<notin> set l \<and> 13 \<notin> set l) \<longrightarrow>
               load_seen (Some (concat (map (\<lambda>l. l @ [10]) ls))) =
                 {strip l |l. l \<in> set ls \<and> strip l \<noteq> []})"
proof -
  let ?xs = "sorted_list_of_set S"
  have set_xs: "set ?xs = S" using assms(1) by simp
  have nl: "\<forall>l\<in>set ?xs. 10 \<notin> set l \<and> 13 \<notin> set l"
    using assms(2) set_xs is_space_10 is_space_13 by blast
  have st: "\<And>h. h \<in> S \<Longrightarrow> strip h = h"
    using assms(2) by (simp add: strip_no_space)
  have "load_seen (save_seen S) = {strip l |l. l \<in> set ?xs \<and> strip l \<noteq> []}"
    unfolding save_seen_def using nl by (rule load_lines)
  also have "\<dots> = S"
  proof (intro set_eqI iffI)
    fix x assume "x \<in> {strip l |l. l \<in> set ?xs \<and> strip l \<noteq> []}"
    then show "x \<in> S" using st set_xs by auto
  next
    fix x assume x: "x \<in> S"
    then have "x = strip x \<and> x \<in> set ?xs \<and> strip x \<noteq> []"
      using st assms(2) set_xs by auto
    then show "x \<in> {strip l |l. l \<in> set ?xs \<and> strip l \<noteq> []}" by blast
  qed
  finally have a: "load_seen (save_seen S) = S" .
  have b: "\<exists>ls. save_seen S = Some (concat (map (\<lambda>h. h @ [10]) ls))
               \<and> sorted ls \<and> distinct ls \<and> set ls = S"
    using set_xs by (intro exI[of _ ?xs]) (simp add: save_seen_def)
  have c: "load_seen None = {}" by (simp add: load_seen_def)
  from a b c load_lines show ?thesis by blast
qed

theorem seen_store_roundtrip_witness:
  "load_seen (save_seen {ascii ''b2'', ascii ''a1''}) = {ascii ''b2'', ascii ''a1''}
   \<and> save_seen {ascii ''b2'', ascii ''a1''} = Some (ascii ''a1'' @ [10] @ ascii ''b2'' @ [10])
   \<and> load_seen (Some (ascii ''a1'' @ [10] @ ascii ''  '' @ [10] @ ascii '' b2'' @ [10]))
       = {ascii ''a1'', ascii ''b2''}"
proof -
  let ?S = "{ascii ''b2'', ascii ''a1''}"
  have fin: "finite ?S" by simp
  have ok: "\<forall>h\<in>?S. h \<noteq> [] \<and> (\<forall>c\<in>set h. \<not> is_space c)"
    by (simp add: ascii_def is_space_def)
  have a: "load_seen (save_seen ?S) = ?S"
    using seen_store_roundtrip [OF fin ok] by blast
  have b: "save_seen ?S = Some (ascii ''a1'' @ [10] @ ascii ''b2'' @ [10])"
    by (simp add: save_seen_def ascii_def)
  have c: "load_seen (Some (ascii ''a1'' @ [10] @ ascii ''  '' @ [10] @ ascii '' b2'' @ [10]))
       = {ascii ''a1'', ascii ''b2''}"
    by (simp add: load_seen_def ascii_def strip_def lstrip_def rstrip_def is_space_def)
  from a b c show ?thesis by blast
qed

lemma set_strip: "set (strip s) \<subseteq> set s"
  by (auto simp: strip_def lstrip_def rstrip_def dest!: set_dropWhileD)

lemma universal_newlines_no_cr: "13 \<notin> set (universal_newlines t)"
  by (induction t rule: universal_newlines.induct) auto

lemma file_lines_shape:
  "l \<in> set (file_lines t) \<Longrightarrow> \<exists>body. (l = body @ [10] \<or> l = body) \<and> 10 \<notin> set body \<and> set body \<subseteq> set t"
proof (induction t arbitrary: l)
  case Nil
  then show ?case by simp
next
  case (Cons c t)
  note IH = Cons.IH and prems = Cons.prems
  show ?case
  proof (cases "c = 10")
    case True
    with prems have "l = [10] \<or> l \<in> set (file_lines t)" by simp
    then show ?thesis
    proof
      assume "l = [10]"
      then have "(l = [] @ [10] \<or> l = []) \<and> 10 \<notin> set [] \<and> set [] \<subseteq> set (c # t)" by simp
      then show ?thesis by blast
    next
      assume "l \<in> set (file_lines t)"
      from IH [OF this] show ?thesis by auto
    qed
  next
    case False
    show ?thesis
    proof (cases "file_lines t")
      case Nil
      with prems False have "l = [c]" by simp
      then have "(l = [c] @ [10] \<or> l = [c]) \<and> 10 \<notin> set [c] \<and> set [c] \<subseteq> set (c # t)"
        using False by simp
      then show ?thesis by blast
    next
      case fl: (Cons l0 ls)
      with prems False have "l = c # l0 \<or> l \<in> set ls" by simp
      then show ?thesis
      proof
        assume l: "l = c # l0"
        have "l0 \<in> set (file_lines t)" using fl by simp
        from IH [OF this] obtain body where
          b: "(l0 = body @ [10] \<or> l0 = body)" "10 \<notin> set body" "set body \<subseteq> set t" by blast
        then have "(l = (c # body) @ [10] \<or> l = c # body) \<and> 10 \<notin> set (c # body)
                   \<and> set (c # body) \<subseteq> set (c # t)"
          using l False by auto
        then show ?thesis by blast
      next
        assume "l \<in> set ls"
        then have "l \<in> set (file_lines t)" using fl by simp
        from IH [OF this] show ?thesis by auto
      qed
    qed
  qed
qed

lemma load_seen_clean: "x \<in> load_seen f \<Longrightarrow> clean_line x"
proof (cases f)
  case None
  assume "x \<in> load_seen f"
  with None show ?thesis by (simp add: load_seen_def)
next
  case (Some body0)
  assume "x \<in> load_seen f"
  with Some obtain l where l: "l \<in> set (file_lines (universal_newlines body0))"
    and x: "x = strip l" and ne: "strip l \<noteq> []"
    by (auto simp: load_seen_def)
  from file_lines_shape [OF l] obtain body where
    b: "l = body @ [10] \<or> l = body" "10 \<notin> set body" "set body \<subseteq> set (universal_newlines body0)"
    by blast
  have "strip l = strip body" using b(1) by (auto simp: strip_snoc_space is_space_10)
  then have "set x \<subseteq> set body" using x set_strip by simp
  with b(2,3) universal_newlines_no_cr have "10 \<notin> set x" "13 \<notin> set x" by auto
  with x ne stripped_strip show ?thesis by (simp add: clean_line_def)
qed

lemma finite_load_seen: "finite (load_seen f)"
  by (cases f) (simp_all add: load_seen_def)

lemma load_save_clean:
  assumes "finite S" and "\<forall>x\<in>S. clean_line x"
  shows "load_seen (save_seen S) = S"
proof -
  let ?xs = "sorted_list_of_set S"
  have set_xs: "set ?xs = S" using assms(1) by simp
  have nl: "\<forall>l\<in>set ?xs. 10 \<notin> set l \<and> 13 \<notin> set l"
    using assms(2) set_xs by (auto simp: clean_line_def)
  have "load_seen (save_seen S) = {strip l |l. l \<in> set ?xs \<and> strip l \<noteq> []}"
    unfolding save_seen_def using nl by (rule load_lines)
  also have "\<dots> = S"
  proof (intro set_eqI iffI)
    fix x assume "x \<in> {strip l |l. l \<in> set ?xs \<and> strip l \<noteq> []}"
    then show "x \<in> S" using assms(2) set_xs by (auto simp: clean_line_def strip_stripped)
  next
    fix x assume x: "x \<in> S"
    then have "x = strip x \<and> x \<in> set ?xs \<and> strip x \<noteq> []"
      using assms(2) set_xs by (auto simp: clean_line_def strip_stripped)
    then show "x \<in> {strip l |l. l \<in> set ?xs \<and> strip l \<noteq> []}" by blast
  qed
  finally show ?thesis .
qed

section \<open>Facts about the regular expressions\<close>

lemma first_some_leftmost:
  "first_some (map f xs) = Some y \<Longrightarrow>
     \<exists>i<length xs. f (xs ! i) = Some y \<and> (\<forall>j<i. f (xs ! j) = None)"
proof (induction xs)
  case Nil
  then show ?case by simp
next
  case (Cons x xs)
  show ?case
  proof (cases "f x")
    case None
    with Cons.prems have "first_some (map f xs) = Some y" by simp
    from Cons.IH [OF this] obtain i where i: "i < length xs" "f (xs ! i) = Some y"
      "\<forall>j<i. f (xs ! j) = None" by blast
    have "\<forall>j<Suc i. f ((x # xs) ! j) = None"
    proof (intro allI impI)
      fix j assume "j < Suc i"
      then show "f ((x # xs) ! j) = None" using None i(3) by (cases j) auto
    qed
    with i(1,2) show ?thesis by (intro exI[of _ "Suc i"]) simp
  next
    case (Some z)
    with Cons.prems have "z = y" by simp
    with Some show ?thesis by (intro exI[of _ 0]) simp
  qed
qed

lemma first_some_None_iff: "first_some (map f xs) = None \<longleftrightarrow> (\<forall>x\<in>set xs. f x = None)"
  by (induction xs) (auto simp: first_some_Cons split: option.splits)

lemma re_search_leftmost:
  assumes "re_search ps e s = Some (i, ms)"
  shows "i \<le> length s \<and> match_pieces ps e (drop i s) = Some ms
         \<and> (\<forall>j<i. match_pieces ps e (drop j s) = None)"
proof -
  let ?f = "\<lambda>i. map_option (Pair i) (match_pieces ps e (drop i s))"
  from assms have "first_some (map ?f [0..<Suc (length s)]) = Some (i, ms)"
    by (simp only: re_search_def)
  from first_some_leftmost [OF this] obtain k where
    k: "k < length [0..<Suc (length s)]" "?f ([0..<Suc (length s)] ! k) = Some (i, ms)"
       "\<forall>j<k. ?f ([0..<Suc (length s)] ! j) = None" by blast
  from k(1) have kl: "k \<le> length s" by simp
  then have nk: "[0..<Suc (length s)] ! k = k" by (metis add_0 le_imp_less_Suc nth_upt)
  from k(2) have ki: "k = i" and m: "match_pieces ps e (drop i s) = Some ms"
    unfolding nk by auto
  have "\<forall>j<i. match_pieces ps e (drop j s) = None"
  proof (intro allI impI)
    fix j assume j: "j < i"
    then have "[0..<Suc (length s)] ! j = j" using ki kl by (metis add_0 le_imp_less_Suc less_le_trans nth_upt order_less_imp_le)
    with k(3) j ki show "match_pieces ps e (drop j s) = None" by auto
  qed
  with kl ki m show ?thesis by simp
qed

lemma re_search_None:
  "re_search ps e s = None \<longleftrightarrow> (\<forall>i\<le>length s. match_pieces ps e (drop i s) = None)"
  unfolding re_search_def first_some_None_iff by (auto simp: less_Suc_eq_le)

lemma match_star_iff:
  "match_pieces (Piece cls lo None # ps) e s \<noteq> None \<longleftrightarrow>
     (\<exists>k. lo \<le> k \<and> k \<le> length (takeWhile cls s) \<and> match_pieces ps e (drop k s) \<noteq> None)"
proof -
  let ?f = "\<lambda>k. map_option ((#) (take k s)) (match_pieces ps e (drop k s))"
  have h: "match_pieces (Piece cls lo None # ps) e s =
          first_some (map ?f (rev [lo..<Suc (length (takeWhile cls s))]))"
    by (simp add: Let_def)
  have "match_pieces (Piece cls lo None # ps) e s \<noteq> None \<longleftrightarrow>
        (\<exists>k\<in>set (rev [lo..<Suc (length (takeWhile cls s))]). ?f k \<noteq> None)"
    using first_some_None_iff [of ?f "rev [lo..<Suc (length (takeWhile cls s))]"] h by metis
  also have "\<dots> \<longleftrightarrow> (\<exists>k. lo \<le> k \<and> k \<le> length (takeWhile cls s) \<and> match_pieces ps e (drop k s) \<noteq> None)"
    by (auto simp: less_Suc_eq_le)
  finally show ?thesis .
qed

lemma match_anchored:
  "match_pieces ps True s = Some ms \<Longrightarrow> s = concat ms \<or> s = concat ms @ [10]"
proof (induction ps arbitrary: s ms)
  case Nil
  then show ?case by (auto split: if_splits)
next
  case (Cons p ps)
  obtain cls lo hi where p: "p = Piece cls lo hi" by (cases p)
  from Cons.prems obtain k where
    k: "map_option ((#) (take k s)) (match_pieces ps True (drop k s)) = Some ms"
    unfolding p match_pieces.simps Let_def by (blast dest: first_some_map)
  then obtain ms' where ms': "match_pieces ps True (drop k s) = Some ms'" "ms = take k s # ms'"
    by auto
  from Cons.IH [OF ms'(1)] have "drop k s = concat ms' \<or> drop k s = concat ms' @ [10]" .
  then show ?case unfolding ms'(2)
    by (metis append_take_drop_id append_assoc concat.simps(2))
qed

section \<open>The text composer: results\<close>

lemma site_suffix_space:
  assumes "is_space c" and "match_pieces SITE_SUFFIX True s \<noteq> None"
  shows "match_pieces SITE_SUFFIX True (c # s) \<noteq> None"
proof -
  let ?ps = "[Piece is_dash 1 (Some 1), Piece is_space 0 None, Piece (\<lambda>c. \<not> is_dash c) 2 None]"
  have ss: "SITE_SUFFIX = Piece is_space 0 None # ?ps" by (simp add: SITE_SUFFIX_def)
  from assms(2) obtain k where k: "k \<le> length (takeWhile is_space s)"
    "match_pieces ?ps True (drop k s) \<noteq> None"
    unfolding ss match_star_iff by blast
  have "0 \<le> Suc k \<and> Suc k \<le> length (takeWhile is_space (c # s))
        \<and> match_pieces ?ps True (drop (Suc k) (c # s)) \<noteq> None"
    using k assms(1) by simp
  then show ?thesis unfolding ss match_star_iff by blast
qed

lemma site_suffix_nonempty:
  assumes "match_pieces SITE_SUFFIX True s = Some ms"
  shows "concat ms \<noteq> []"
proof
  assume e: "concat ms = []"
  from match_anchored [OF assms] e have "s = [] \<or> s = [10]" by simp
  moreover have "match_pieces SITE_SUFFIX True [] = None"
    by (simp add: SITE_SUFFIX_def is_dash_def)
  moreover have "match_pieces SITE_SUFFIX True [10] = None"
    by (simp add: SITE_SUFFIX_def is_dash_def is_space_def)
  ultimately show False using assms by auto
qed

lemma re_sub_empty_Nil: "re_sub_empty SITE_SUFFIX True [] = []"
proof -
  have "re_search SITE_SUFFIX True [] = None"
    by (simp add: re_search_def SITE_SUFFIX_def is_dash_def)
  then show ?thesis by (subst re_sub_empty.simps) simp
qed

lemma clean_stripped:
  assumes "stripped s"
  shows "stripped (re_sub_empty SITE_SUFFIX True s)"
proof (cases "re_search SITE_SUFFIX True s")
  case None
  then show ?thesis using assms by (subst re_sub_empty.simps) simp
next
  case (Some a)
  obtain i ms where a: "a = (i, ms)" by (cases a)
  from re_search_leftmost [OF Some [unfolded a]]
  have il: "i \<le> length s" and m: "match_pieces SITE_SUFFIX True (drop i s) = Some ms"
    and left: "\<forall>j<i. match_pieces SITE_SUFFIX True (drop j s) = None" by auto
  have ne: "concat ms \<noteq> []" using m by (rule site_suffix_nonempty)
  from match_anchored [OF m] have d: "drop i s = concat ms \<or> drop i s = concat ms @ [10]" .
  then have sne: "s \<noteq> []" using ne by auto
  with assms have hs: "\<not> is_space (hd s)" and ls: "\<not> is_space (last s)"
    by (auto simp: stripped_def)
  have di: "drop i s = concat ms"
  proof (rule ccontr)
    assume "drop i s \<noteq> concat ms"
    with d have "drop i s = concat ms @ [10]" by simp
    then have "last (drop i s) = 10" by simp
    moreover have "drop i s \<noteq> []" using \<open>drop i s = concat ms @ [10]\<close> by simp
    ultimately have "last s = 10" by (simp add: last_drop)
    with ls show False by (simp add: is_space_def)
  qed
  then have len: "i + length (concat ms) = length s"
    using il by (metis le_add_diff_inverse length_drop)
  obtain n where n: "length (concat ms) = Suc n" using ne by (cases "concat ms") auto
  have dr: "drop (i + Suc n) s = []" using len n by simp
  have "re_sub_empty SITE_SUFFIX True s =
          (let n = length (concat ms) in
           if n = 0 then
             (if i < length s then take (Suc i) s @ re_sub_empty SITE_SUFFIX True (drop (Suc i) s)
              else s)
           else take i s @ re_sub_empty SITE_SUFFIX True (drop (i + n) s))"
    by (subst re_sub_empty.simps) (simp only: Some a option.case prod.case)
  also have "\<dots> = take i s @ re_sub_empty SITE_SUFFIX True (drop (i + Suc n) s)"
    by (simp only: Let_def n nat.distinct if_False)
  also have "\<dots> = take i s"
    by (simp only: dr re_sub_empty_Nil append_Nil2)
  finally have res: "re_sub_empty SITE_SUFFIX True s = take i s" .
  show ?thesis
  proof (cases i)
    case 0
    then show ?thesis by (simp add: res stripped_def)
  next
    case (Suc j)
    have jl: "j < length s" using Suc len ne by (cases "concat ms") auto
    have "\<not> is_space (s ! j)"
    proof
      assume sp: "is_space (s ! j)"
      have "drop j s = s ! j # drop i s" using jl Suc by (simp add: Cons_nth_drop_Suc)
      with site_suffix_space [OF sp] m have "match_pieces SITE_SUFFIX True (drop j s) \<noteq> None"
        by simp
      with left Suc show False by simp
    qed
    moreover have "last (take i s) = s ! j" using jl Suc by (simp add: take_Suc_conv_app_nth)
    moreover have "hd (take i s) = hd s" using Suc sne by (cases s) auto
    ultimately show ?thesis using hs by (simp add: res stripped_def)
  qed
qed

lemma clean_title_stripped: "stripped (clean_title t)"
  unfolding clean_title_def by (rule clean_stripped) (rule stripped_strip)

lemma length_tweet_text:
  "length (tweet_text h source url) = length h + length source + length url + 19"
  by (simp add: tweet_text_def DEFAULT_TAGS_def ascii_def)

lemma prefix_shape:
  assumes "p \<in> set REWORD_PREFIXES"
  shows "p \<noteq> [] \<and> \<not> is_space (hd p) \<and> \<not> is_space (last p)"
  using assms by (auto simp: REWORD_PREFIXES_def ascii_def is_space_def)

lemma prefixed_longer:
  assumes p: "p \<in> set REWORD_PREFIXES" and t: "stripped title"
  shows "length title < length (strip (p @ [32] @ title))"
proof (cases "title = []")
  case True
  have "strip (p @ [32]) = strip p" by (rule strip_snoc_space) (simp add: is_space_def)
  also have "\<dots> = p" using prefix_shape [OF p] by (intro strip_stripped) (simp add: stripped_def)
  finally show ?thesis using True prefix_shape [OF p] by simp
next
  case False
  with t have "\<not> is_space (last title)" by (simp add: stripped_def)
  then have "stripped (p @ [32] @ title)"
    using False prefix_shape [OF p] by (simp add: stripped_def)
  then have "strip (p @ [32] @ title) = p @ [32] @ title" by (rule strip_stripped)
  then show ?thesis by simp
qed

lemma first_fitting_None:
  "\<forall>p\<in>set ps. 280 < length (tweet_text (strip (p @ [32] @ title)) source url) \<Longrightarrow>
     first_fitting ps title source url = None"
  by (induction ps) (auto simp: Let_def)

lemma first_fitting_Cons:
  "first_fitting (p # ps) title source url =
     (if length (tweet_text (strip (p @ [32] @ title)) source url) \<le> 280
      then Some (tweet_text (strip (p @ [32] @ title)) source url)
      else first_fitting ps title source url)"
  by (simp add: Let_def)

declare first_fitting.simps [simp del]

lemma first_fitting_all:
  assumes "stripped title"
  shows "first_fitting ([] # REWORD_PREFIXES) title source url =
           (if length (tweet_text title source url) \<le> 280
            then Some (tweet_text title source url) else None)"
proof -
  have s: "strip ([] @ [32] @ title) = title"
    using assms by (simp add: strip_space_Cons is_space_def strip_stripped)
  show ?thesis
  proof (cases "length (tweet_text title source url) \<le> 280")
    case True
    then show ?thesis by (simp only: first_fitting_Cons s if_True)
  next
    case False
    have "\<forall>p\<in>set REWORD_PREFIXES. 280 < length (tweet_text (strip (p @ [32] @ title)) source url)"
    proof
      fix p assume "p \<in> set REWORD_PREFIXES"
      from prefixed_longer [OF this assms] False
      show "280 < length (tweet_text (strip (p @ [32] @ title)) source url)"
        by (simp add: length_tweet_text)
    qed
    then have "first_fitting REWORD_PREFIXES title source url = None"
      by (rule first_fitting_None)
    with False show ?thesis by (simp only: first_fitting_Cons s if_False)
  qed
qed

lemma placeholder_line_bound:
  "cur_len = total revline \<Longrightarrow> length (lstrip ph) \<le> w \<Longrightarrow>
     length (placeholder_line revline cur_len w ph) \<le> w"
proof (induction revline arbitrary: cur_len)
  case Nil
  then show ?case by simp
next
  case (Cons c cs)
  have "length (concat (rev (c # cs))) = total (c # cs)"
    by (simp add: total_def length_concat rev_map [symmetric])
  with Cons show ?case by (auto simp: total_def)
qed

lemma wrap_chunks_bound:
  "length (lstrip ph) \<le> w \<Longrightarrow> length (join [10] (wrap_chunks chunks w ph)) \<le> w"
proof (induction chunks w ph rule: wrap_chunks.induct)
  case (1 chunks width ph)
  show ?case
  proof (cases "chunks = []")
    case True
    then show ?thesis by (subst wrap_chunks.simps) simp
  next
    case False
    obtain cur_line rest where ls: "line_step chunks width = (cur_line, rest)"
      by (cases "line_step chunks width")
    show ?thesis
    proof (cases "cur_line = []")
      case True
      with False ls have "wrap_chunks chunks width ph = wrap_chunks rest width ph"
        by (subst wrap_chunks.simps) simp
      moreover have "length (join [10] (wrap_chunks rest width ph)) \<le> width"
        using "1.IH" [OF False ls [symmetric] _ "1.prems"] True by simp
      ultimately show ?thesis by simp
    next
      case ne: False
      have t: "length (concat cur_line) = total cur_line"
        by (simp add: total_def length_concat)
      have "length (placeholder_line (rev cur_line) (total cur_line) width ph) \<le> width"
        using "1.prems" by (intro placeholder_line_bound) (simp_all add: total_def rev_map [symmetric])
      with False ls ne t show ?thesis
        by (subst wrap_chunks.simps) simp
    qed
  qed
qed

lemma shorten_bound: "length (shorten t 200 (ascii ''...'')) \<le> 200"
  unfolding shorten_def by (rule wrap_chunks_bound) (simp add: ascii_def lstrip_def is_space_def)

lemmas eval_strings = ascii_def is_space_def Let_def strip_def lstrip_def rstrip_def or_empty_def

lemmas eval_composer = is_dash_def SITE_SUFFIX_def re_search_def clean_title_def
  re_sub_empty.simps tweet_text_def DEFAULT_TAGS_def REWORD_PREFIXES_def first_fitting.simps
  build_tweet_def build_tweet_simple_def

lemmas eval_shorten = shorten_def split_ws.simps wordsep_split.simps wrap_chunks.simps
  line_step_def handle_long_word_def rfind_hyphen_def total_def chunk_len_def em_dash_at_def
  is_tw_space_def is_word_def is_digit_def is_letter_def is_word_punct_def

lemma build_tweet_eq_simple: "build_tweet title source url = build_tweet_simple title source url"
  by (simp add: build_tweet_def build_tweet_simple_def Let_def
      first_fitting_all [OF clean_title_stripped])

text \<open>
  Claim C9. The composer equals the function that never uses a reword prefix: it returns
  the candidate without prefix exactly when that candidate has at most 280 characters,
  and the fallback with the shortened title otherwise. No prefixed candidate is ever
  returned, because each of them is strictly longer than the candidate without prefix.
\<close>

theorem build_tweet_never_prefixes:
  "build_tweet title source url = build_tweet_simple title source url
   \<and> (\<forall>p\<in>set REWORD_PREFIXES.
        length (tweet_text (clean_title title) source url)
          < length (tweet_text (strip (p @ [32] @ clean_title title)) source url))"
proof -
  have st: "stripped (clean_title title)" by (rule clean_title_stripped)
  have b: "\<forall>p\<in>set REWORD_PREFIXES.
        length (tweet_text (clean_title title) source url)
          < length (tweet_text (strip (p @ [32] @ clean_title title)) source url)"
    using prefixed_longer [OF _ st] by (simp add: length_tweet_text)
  from build_tweet_eq_simple b show ?thesis ..
qed

theorem build_tweet_never_prefixes_witness:
  "build_tweet (Some (ascii ''Pats win - NESN'')) (ascii ''NESN'') (ascii ''https://x.com/a'')
     = ascii ''Pats win'' @ [32, 8212, 32] @ ascii ''NESN'' @ [10]
         @ ascii ''https://x.com/a #Patriots #NFL''
   \<and> build_tweet_simple (Some (ascii ''Pats win - NESN'')) (ascii ''NESN'') (ascii ''https://x.com/a'')
     = ascii ''Pats win'' @ [32, 8212, 32] @ ascii ''NESN'' @ [10]
         @ ascii ''https://x.com/a #Patriots #NFL''
   \<and> length (tweet_text (clean_title (Some (ascii ''Pats win - NESN''))) (ascii ''NESN'')
         (ascii ''https://x.com/a''))
       < length (tweet_text (strip (ascii ''Update:'' @ [32]
                                    @ clean_title (Some (ascii ''Pats win - NESN''))))
           (ascii ''NESN'') (ascii ''https://x.com/a''))"
proof -
  let ?t = "Some (ascii ''Pats win - NESN'')"
  let ?s = "ascii ''NESN''"
  let ?u = "ascii ''https://x.com/a''"
  have s: "build_tweet_simple ?t ?s ?u
     = ascii ''Pats win'' @ [32, 8212, 32] @ ascii ''NESN'' @ [10]
         @ ascii ''https://x.com/a #Patriots #NFL''"
    by (simp add: eval_strings eval_composer)
  have p: "ascii ''Update:'' \<in> set REWORD_PREFIXES" by (simp add: REWORD_PREFIXES_def)
  from build_tweet_never_prefixes [of ?t ?s ?u] s p show ?thesis by auto
qed

text \<open>
  Claim C1, as stated, fails: the fallback is not checked against the budget. For the
  title "Pats win", the source "NESN" and a URL of 284 characters no candidate fits, the
  title needs no shortening, and the text returned has 315 characters.
\<close>

theorem build_tweet_over_budget:
  "\<not> length (build_tweet (Some (ascii ''Pats win'')) (ascii ''NESN'')
          (ascii ''https://x.com/'' @ replicate 270 97)) \<le> 280"
proof -
  have "length (build_tweet (Some (ascii ''Pats win'')) (ascii ''NESN'')
          (ascii ''https://x.com/'' @ replicate 270 97)) = 315"
    by (simp add: eval_strings eval_composer eval_shorten)
  then show ?thesis by simp
qed

text \<open>
  Claim C1, amended. The text returned has at most 280 characters whenever the candidate
  without prefix has, and whenever the source label and the URL have at most 61
  characters together; in every case it has at most
  \<open>max 280 (length source + length url + 219)\<close> characters, the shortened title having
  at most 200.
\<close>

theorem build_tweet_length:
  "length (build_tweet title source url) \<le> max 280 (length source + length url + 219)
   \<and> (length (tweet_text (clean_title title) source url) \<le> 280 \<longrightarrow>
        length (build_tweet title source url) \<le> 280)
   \<and> (length source + length url \<le> 61 \<longrightarrow> length (build_tweet title source url) \<le> 280)"
proof -
  have st: "stripped (clean_title title)" by (rule clean_title_stripped)
  have a: "length (build_tweet title source url) \<le> max 280 (length source + length url + 219)"
    using shorten_bound [of "clean_title title"]
    by (auto simp: build_tweet_def Let_def first_fitting_all [OF st] length_tweet_text max_def)
  have b: "length (tweet_text (clean_title title) source url) \<le> 280 \<longrightarrow>
        length (build_tweet title source url) \<le> 280"
    by (simp add: build_tweet_def Let_def first_fitting_all [OF st])
  from a b show ?thesis by auto
qed

theorem build_tweet_length_witness:
  "length (ascii ''NESN'') + length (ascii ''https://x.com/a'') \<le> 61
   \<and> length (build_tweet (Some (ascii ''Pats win - NESN'')) (ascii ''NESN'')
         (ascii ''https://x.com/a'')) \<le> 280"
  using build_tweet_length [of "Some (ascii ''Pats win - NESN'')" "ascii ''NESN''"
      "ascii ''https://x.com/a''"]
  by (simp add: ascii_def)

section \<open>Facts about the fingerprint\<close>

lemma hexdigest_chars:
  "\<forall>b\<in>set bs. b < 256 \<Longrightarrow> c \<in> set (hexdigest bs) \<Longrightarrow> 48 \<le> c \<and> c \<le> 102"
proof -
  assume bs: "\<forall>b\<in>set bs. b < 256" and "c \<in> set (hexdigest bs)"
  then obtain b where b: "b \<in> set bs" "c = hex_digit (b div 16) \<or> c = hex_digit (b mod 16)"
    by (auto simp: hexdigest_def)
  with bs have "b div 16 < 16" "b mod 16 < 16" by (auto simp: less_mult_imp_div_less)
  with b(2) show ?thesis by (auto simp: hex_digit_def)
qed

lemma length_hexdigest: "length (hexdigest bs) = 2 * length bs"
  by (induction bs) (simp_all add: hexdigest_def)

lemma length_sha_round: "length (sha_round s kw) = length s"
  by (induction s kw rule: sha_round.induct) (simp_all add: Let_def)

lemma length_foldl_sha_round: "length (foldl sha_round s xs) = length s"
  by (induction xs arbitrary: s) (simp_all add: length_sha_round)

lemma length_compress: "length (compress hs block) = length hs"
  by (simp add: compress_def Let_def length_foldl_sha_round)

lemma length_foldl_compress: "length (foldl compress hs blocks) = length hs"
  by (induction blocks arbitrary: hs) (simp_all add: length_compress)

lemma length_sha256: "length (sha256 msg) = 32"
proof -
  have "length (concat (map be_bytes4 ws)) = 4 * length ws" for ws
    by (induction ws) (simp_all add: be_bytes4_def)
  then show ?thesis by (simp add: sha256_def length_foldl_compress H256_def)
qed

lemma sha256_bytes: "b \<in> set (sha256 msg) \<Longrightarrow> b < 256"
  by (auto simp: sha256_def be_bytes4_def)

lemma item_hash_shape:
  "length (item_hash title url) = 64 \<and> (\<forall>c\<in>set (item_hash title url). 48 \<le> c \<and> c \<le> 102)"
  using hexdigest_chars [OF ballI [OF sha256_bytes]]
  by (auto simp: item_hash_def Let_def length_hexdigest length_sha256)

lemma item_hash_clean: "clean_line (item_hash title url)"
proof -
  let ?h = "item_hash title url"
  have len: "length ?h = 64" and ch: "\<forall>c\<in>set ?h. 48 \<le> c \<and> c \<le> 102"
    using item_hash_shape by auto
  from len have ne: "?h \<noteq> []" by auto
  then have "hd ?h \<in> set ?h" "last ?h \<in> set ?h" by auto
  with ch have "\<not> is_space (hd ?h)" "\<not> is_space (last ?h)" by (auto simp: is_space_def)
  moreover from ch have "10 \<notin> set ?h" "13 \<notin> set ?h" by auto
  ultimately show ?thesis using ne by (simp add: clean_line_def stripped_def)
qed

section \<open>The run pipeline: results\<close>

lemma process_entry_skip:
  "\<not> eligible entry \<or> fingerprint entry \<in> seen st \<Longrightarrow> process_entry w source entry st = st"
  by (auto simp: process_entry_def eligible_def fingerprint_def Let_def)

lemma process_entry_attempt:
  assumes "eligible entry" and "fingerprint entry \<notin> seen st"
  shows "process_entry w source entry st =
           (if a_outcome (attempt_of w source entry st) = Posted
            then st\<lparr>seen := insert (fingerprint entry) (seen st), posted := posted st + 1,
                    calls := calls st @ [attempt_of w source entry st]\<rparr>
            else st\<lparr>calls := calls st @ [attempt_of w source entry st]\<rparr>)"
  using assms
  by (auto simp: process_entry_def eligible_def fingerprint_def attempt_of_def Let_def
      split: outcome.splits)

lemma process_entry_inv:
  assumes "run_inv st" and "posted st < MAX_POSTS_PER_RUN"
  shows "run_inv (process_entry w source entry st)"
proof (cases "eligible entry \<and> fingerprint entry \<notin> seen st")
  case False
  then show ?thesis using assms(1) process_entry_skip [of entry st w source] by auto
next
  case True
  then have e: "eligible entry" and n: "fingerprint entry \<notin> seen st" by auto
  have h: "a_hash (attempt_of w source entry st) = fingerprint entry"
    by (simp add: attempt_of_def Let_def)
  show ?thesis
    using assms n h
    by (auto simp: process_entry_attempt [OF e n] run_inv_def successes_def)
qed

lemma process_entry_seen_mono: "seen st \<subseteq> seen (process_entry w source entry st)"
  by (cases "eligible entry \<and> fingerprint entry \<notin> seen st")
     (auto simp: process_entry_attempt process_entry_skip)

lemma run_entries_inv: "run_inv st \<Longrightarrow> run_inv (run_entries w source entries st)"
proof (induction entries arbitrary: st)
  case Nil
  then show ?case by simp
next
  case (Cons e es)
  show ?case
  proof (cases "MAX_POSTS_PER_RUN \<le> posted st")
    case True
    then show ?thesis using Cons.prems by simp
  next
    case False
    then have "run_inv (process_entry w source e st)"
      using Cons.prems by (intro process_entry_inv) auto
    then show ?thesis using False Cons.IH by simp
  qed
qed

lemma fetched_update_notions:
  "successes (st\<lparr>fetched := F\<rparr>) = successes st"
  "run_inv (st\<lparr>fetched := F\<rparr>) = run_inv st"
  "seen_inv S0 (st\<lparr>fetched := F\<rparr>) = seen_inv S0 st"
  "calls_clean (st\<lparr>fetched := F\<rparr>) = calls_clean st"
  by (simp_all add: successes_def run_inv_def seen_inv_def calls_clean_def)

lemma run_feeds_inv: "run_inv st \<Longrightarrow> run_inv (run_feeds w feed_urls st)"
proof (induction feed_urls arbitrary: st)
  case Nil
  then show ?case by simp
next
  case (Cons u us)
  show ?case
  proof (cases "MAX_POSTS_PER_RUN \<le> posted st")
    case True
    then show ?thesis using Cons.prems by simp
  next
    case False
    have "run_inv (st\<lparr>fetched := fetched st @ [u]\<rparr>)"
      using Cons.prems by (simp add: fetched_update_notions)
    then have "run_inv (run_entries w (source_of (w_parse w u)) (take 12 (f_entries (w_parse w u)))
        (st\<lparr>fetched := fetched st @ [u]\<rparr>))"
      by (rule run_entries_inv)
    then show ?thesis using False Cons.IH by (simp add: Let_def)
  qed
qed

lemma run_entries_capped: "MAX_POSTS_PER_RUN \<le> posted st \<Longrightarrow> run_entries w source entries st = st"
  by (cases entries) auto

lemma run_feeds_capped: "MAX_POSTS_PER_RUN \<le> posted st \<Longrightarrow> run_feeds w feed_urls st = st"
  by (cases feed_urls) auto

lemma run_bot_inv: "run_inv (snd (run_bot w file))"
proof -
  have "run_inv \<lparr>seen = load_seen file, posted = 0, calls = [], fetched = []\<rparr>"
    by (simp add: run_inv_def successes_def)
  then show ?thesis by (simp add: run_bot_def Let_def run_feeds_inv)
qed

lemma successes_snoc:
  "successes (st\<lparr>calls := calls st @ [a]\<rparr>) =
     successes st @ (if a_outcome a = Posted then [a] else [])"
  "successes (st\<lparr>seen := S, posted := n, calls := calls st @ [a]\<rparr>) =
     successes st @ (if a_outcome a = Posted then [a] else [])"
  by (simp_all add: successes_def)

lemma process_entry_seen_inv:
  assumes "seen_inv S0 st"
  shows "seen_inv S0 (process_entry w source entry st)"
proof (cases "eligible entry \<and> fingerprint entry \<notin> seen st")
  case False
  then show ?thesis using assms process_entry_skip [of entry st w source] by auto
next
  case True
  then have e: "eligible entry" and n: "fingerprint entry \<notin> seen st" by auto
  have h: "a_hash (attempt_of w source entry st) = fingerprint entry"
    by (simp add: attempt_of_def Let_def)
  show ?thesis
    using assms h by (simp add: process_entry_attempt [OF e n] seen_inv_def successes_snoc)
qed

lemma run_entries_seen_inv: "seen_inv S0 st \<Longrightarrow> seen_inv S0 (run_entries w source entries st)"
  by (induction entries arbitrary: st) (auto simp: process_entry_seen_inv)

lemma run_feeds_seen_inv: "seen_inv S0 st \<Longrightarrow> seen_inv S0 (run_feeds w feed_urls st)"
  by (induction feed_urls arbitrary: st)
     (auto simp: Let_def run_entries_seen_inv fetched_update_notions)

lemma fingerprint_clean: "clean_line (fingerprint entry)"
  by (simp add: fingerprint_def item_hash_clean)

lemma attempt_hash_clean:
  "a \<in> set (calls (process_entry w source entry st)) \<Longrightarrow>
     a \<in> set (calls st) \<or> a_hash a = fingerprint entry"
  by (cases "eligible entry \<and> fingerprint entry \<notin> seen st")
     (auto simp: process_entry_attempt process_entry_skip attempt_of_def Let_def split: if_splits)

lemma process_entry_calls_clean: "calls_clean st \<Longrightarrow> calls_clean (process_entry w source entry st)"
  unfolding calls_clean_def using attempt_hash_clean fingerprint_clean by metis

lemma run_entries_calls_clean: "calls_clean st \<Longrightarrow> calls_clean (run_entries w source entries st)"
  by (induction entries arbitrary: st) (auto simp: process_entry_calls_clean)

lemma run_feeds_calls_clean: "calls_clean st \<Longrightarrow> calls_clean (run_feeds w feed_urls st)"
  by (induction feed_urls arbitrary: st)
     (auto simp: Let_def run_entries_calls_clean fetched_update_notions)

lemma run_bot_persisted:
  "load_seen (fst (run_bot w file)) =
     load_seen file \<union> a_hash ` set (successes (snd (run_bot w file)))"
proof -
  let ?init = "\<lparr>seen = load_seen file, posted = 0, calls = [], fetched = []\<rparr>"
  let ?st = "run_feeds w FEEDS ?init"
  have "seen_inv (load_seen file) ?init" by (simp add: seen_inv_def successes_def)
  then have "seen_inv (load_seen file) ?st" by (rule run_feeds_seen_inv)
  then have s: "seen ?st = load_seen file \<union> a_hash ` set (successes ?st)"
    by (simp only: seen_inv_def)
  have "calls_clean ?init" by (simp add: calls_clean_def)
  then have "calls_clean ?st" by (rule run_feeds_calls_clean)
  then have c: "\<forall>x\<in>seen ?st. clean_line x"
    using s load_seen_clean by (auto simp: calls_clean_def successes_def)
  have f: "finite (seen ?st)" using s finite_load_seen by simp
  have "load_seen (fst (run_bot w file)) = load_seen (save_seen (seen ?st))"
    by (simp add: run_bot_def Let_def)
  also have "\<dots> = seen ?st" using f c by (rule load_save_clean)
  also have "\<dots> = load_seen file \<union> a_hash ` set (successes ?st)" by (rule s)
  also have "?st = snd (run_bot w file)" by (simp add: run_bot_def Let_def)
  finally show ?thesis .
qed

lemma run_items_capped: "MAX_POSTS_PER_RUN \<le> posted st \<Longrightarrow> run_items w items st = st"
  by (cases items) auto

lemma run_entries_items: "run_entries w source entries st = run_items w (map (Pair source) entries) st"
  by (induction entries arbitrary: st) auto

lemma run_items_append: "run_items w (xs @ ys) st = run_items w ys (run_items w xs st)"
  by (induction xs arbitrary: st) (auto simp: run_items_capped)

lemma process_entry_fetched:
  "process_entry w source entry (st\<lparr>fetched := F\<rparr>) = (process_entry w source entry st)\<lparr>fetched := F\<rparr>"
  by (simp add: process_entry_def Let_def split: outcome.splits)

lemma run_items_fetched: "run_items w items (st\<lparr>fetched := F\<rparr>) = (run_items w items st)\<lparr>fetched := F\<rparr>"
  by (induction items arbitrary: st) (auto simp: process_entry_fetched)

lemma run_feeds_items:
  "seen (run_feeds w feed_urls st) = seen (run_items w (feed_items w feed_urls) st)
   \<and> posted (run_feeds w feed_urls st) = posted (run_items w (feed_items w feed_urls) st)
   \<and> calls (run_feeds w feed_urls st) = calls (run_items w (feed_items w feed_urls) st)"
proof (induction feed_urls arbitrary: st)
  case Nil
  then show ?case by (simp add: feed_items_def)
next
  case (Cons u us)
  let ?here = "map (Pair (source_of (w_parse w u))) (take 12 (f_entries (w_parse w u)))"
  have f: "feed_items w (u # us) = ?here @ feed_items w us"
    by (simp add: feed_items_def)
  show ?case
  proof (cases "MAX_POSTS_PER_RUN \<le> posted st")
    case True
    then show ?thesis by (simp add: run_items_capped)
  next
    case False
    let ?st1 = "run_items w ?here (st\<lparr>fetched := fetched st @ [u]\<rparr>)"
    have r: "run_feeds w (u # us) st = run_feeds w us ?st1"
      using False by (simp add: Let_def run_entries_items)
    have e: "run_items w (feed_items w us) ?st1 =
        (run_items w (feed_items w (u # us)) st)\<lparr>fetched := fetched st @ [u]\<rparr>"
      by (simp only: f run_items_append run_items_fetched)
    show ?thesis
      unfolding r using Cons.IH [of ?st1] by (simp only: e) simp
  qed
qed

lemma run_bot_items:
  "seen (snd (run_bot w file)) =
     seen (run_items w (feed_items w FEEDS) \<lparr>seen = load_seen file, posted = 0, calls = [], fetched = []\<rparr>)"
  "posted (snd (run_bot w file)) =
     posted (run_items w (feed_items w FEEDS) \<lparr>seen = load_seen file, posted = 0, calls = [], fetched = []\<rparr>)"
  "calls (snd (run_bot w file)) =
     calls (run_items w (feed_items w FEEDS) \<lparr>seen = load_seen file, posted = 0, calls = [], fetched = []\<rparr>)"
  by (simp_all add: run_bot_def Let_def run_feeds_items)

lemma max_posts: "0 < MAX_POSTS_PER_RUN" "\<not> MAX_POSTS_PER_RUN \<le> Suc 0"
  by (simp_all add: MAX_POSTS_PER_RUN_def)

lemma one_new_item:
  assumes items: "map snd items = [a, b] \<or> map snd items = [b, a]"
    and a: "eligible a" and b: "\<not> eligible b"
    and new: "fingerprint a \<notin> S"
    and pub: "\<forall>n t m. w_publish w n t m = Posted"
  shows "\<exists>c. run_items w items \<lparr>seen = S, posted = 0, calls = [], fetched = []\<rparr>
           = \<lparr>seen = insert (fingerprint a) S, posted = 1, calls = [c], fetched = []\<rparr>
           \<and> a_hash c = fingerprint a \<and> a_outcome c = Posted"
proof -
  let ?init = "\<lparr>seen = S, posted = 0, calls = [], fetched = []\<rparr>"
  have pa: "\<And>s. process_entry w s a ?init =
      \<lparr>seen = insert (fingerprint a) S, posted = 1, calls = [attempt_of w s a ?init], fetched = []\<rparr>"
    using a new pub by (simp add: process_entry_attempt attempt_of_def Let_def)
  have pb: "\<And>s st. process_entry w s b st = st"
    using b by (simp add: process_entry_skip)
  have at: "\<And>s. a_hash (attempt_of w s a ?init) = fingerprint a
                \<and> a_outcome (attempt_of w s a ?init) = Posted"
    using pub by (simp add: attempt_of_def Let_def)
  from items show ?thesis
  proof
    assume "map snd items = [a, b]"
    then obtain s1 s2 where "items = [(s1, a), (s2, b)]" by auto
    then have "run_items w items ?init =
        \<lparr>seen = insert (fingerprint a) S, posted = 1, calls = [attempt_of w s1 a ?init], fetched = []\<rparr>"
      by (simp add: pa pb max_posts)
    with at show ?thesis by blast
  next
    assume "map snd items = [b, a]"
    then obtain s1 s2 where "items = [(s1, b), (s2, a)]" by auto
    then have "run_items w items ?init =
        \<lparr>seen = insert (fingerprint a) S, posted = 1, calls = [attempt_of w s2 a ?init], fetched = []\<rparr>"
      by (simp add: pa pb max_posts)
    with at show ?thesis by blast
  qed
qed

lemma nothing_new:
  assumes items: "map snd items = [a, b] \<or> map snd items = [b, a]"
    and b: "\<not> eligible b" and old: "fingerprint a \<in> seen st"
  shows "run_items w items st = st"
proof -
  have pa: "\<And>s. process_entry w s a st = st" using old by (simp add: process_entry_skip)
  have pb: "\<And>s st. process_entry w s b st = st" using b by (simp add: process_entry_skip)
  from items show ?thesis
  proof
    assume "map snd items = [a, b]"
    then obtain s1 s2 where "items = [(s1, a), (s2, b)]" by auto
    then show ?thesis by (simp add: pa pb)
  next
    assume "map snd items = [b, a]"
    then obtain s1 s2 where "items = [(s1, b), (s2, a)]" by auto
    then show ?thesis by (simp add: pa pb)
  qed
qed

lemma two_feeds_items:
  "feed_items (world_of two_feeds r) FEEDS =
     [(ascii ''Pats Pulpit'', item ''Patriots sign new TE'' ''https://x.com/a''),
      (ascii ''Source'', item ''Celtics win opener'' ''https://x.com/b'')]"
  by (simp add: feed_items_def FEEDS_def two_feeds_def world_of_def no_feed_def source_of_def
      ascii_def)

lemma eligible_a: "eligible (item ''Patriots sign new TE'' ''https://x.com/a'')"
  by (simp add: eligible_def item_def looks_like_patriots_def KEYWORDS_def py_lower_def
      lower_cp_def eval_strings)

lemma irrelevant_b:
  "\<not> looks_like_patriots
      (Some (strip (or_empty (e_title (item ''Celtics win opener'' ''https://x.com/b'')))))"
  by (simp add: item_def looks_like_patriots_def KEYWORDS_def py_lower_def
      lower_cp_def eval_strings)

lemma process_entry_keeps_fetched: "fetched (process_entry w source entry st) = fetched st"
  by (simp add: process_entry_def Let_def split: outcome.splits)

lemma run_entries_keeps_fetched: "fetched (run_entries w source entries st) = fetched st"
  by (induction entries arbitrary: st) (simp_all add: process_entry_keeps_fetched)

lemma run_feeds_fetched_prefix: "\<exists>k. fetched (run_feeds w feed_urls st) = fetched st @ take k feed_urls"
proof (induction feed_urls arbitrary: st)
  case Nil
  then show ?case by simp
next
  case (Cons u us)
  show ?case
  proof (cases "MAX_POSTS_PER_RUN \<le> posted st")
    case True
    then have "fetched (run_feeds w (u # us) st) = fetched st @ take 0 (u # us)" by simp
    then show ?thesis by blast
  next
    case False
    let ?st1 = "run_entries w (source_of (w_parse w u)) (take 12 (f_entries (w_parse w u)))
                  (st\<lparr>fetched := fetched st @ [u]\<rparr>)"
    from Cons.IH [of ?st1] obtain k where
      "fetched (run_feeds w us ?st1) = fetched ?st1 @ take k us" by blast
    then have "fetched (run_feeds w (u # us) st) = fetched st @ take (Suc k) (u # us)"
      using False by (simp add: Let_def run_entries_keeps_fetched)
    then show ?thesis by blast
  qed
qed

lemma run_feeds_fetches_below_cap:
  "\<not> MAX_POSTS_PER_RUN \<le> posted st \<Longrightarrow> fetched (run_feeds w [feed_url] st) = fetched st @ [feed_url]"
  by (simp add: Let_def run_entries_keeps_fetched)

lemma run_entries_stop_after:
  "MAX_POSTS_PER_RUN \<le> posted (process_entry w source entry st) \<Longrightarrow>
     run_entries w source (entry # entries) st = run_entries w source [entry] st"
  by (simp add: run_entries_capped)

lemma run_feeds_stop_after:
  "MAX_POSTS_PER_RUN \<le> posted (run_feeds w [feed_url] st) \<Longrightarrow>
     run_feeds w (feed_url # feed_urls) st = run_feeds w [feed_url] st"
  by (auto simp: Let_def run_feeds_capped)

text \<open>
  Claim C4. In every run the number of successful publishes is the counter, which never
  exceeds the maximum of 4 per run. Once the counter has reached the maximum, both loops
  stop: the loop over the entries and the loop over the feeds return the state as it is,
  so no further call of \<^verbatim>\<open>create_tweet\<close> and no further call of \<^verbatim>\<open>feedparser.parse\<close>
  is made; when the maximum is reached at an entry or in a feed, the entries and feeds
  after it are not processed. Below the maximum the feed loop does fetch the next feed,
  and the feeds fetched in a run are a first part of the list of feeds.
\<close>

theorem posts_capped:
  "MAX_POSTS_PER_RUN = 4
   \<and> length (successes (snd (run_bot w file))) = posted (snd (run_bot w file))
   \<and> posted (snd (run_bot w file)) \<le> MAX_POSTS_PER_RUN
   \<and> (\<forall>st. MAX_POSTS_PER_RUN \<le> posted st \<longrightarrow>
         run_entries w source entries st = st \<and> run_feeds w feed_urls st = st)
   \<and> (\<forall>st. MAX_POSTS_PER_RUN \<le> posted st \<longrightarrow>
         fetched (run_feeds w feed_urls st) = fetched st
         \<and> calls (run_feeds w feed_urls st) = calls st)
   \<and> (\<forall>st. MAX_POSTS_PER_RUN \<le> posted (process_entry w source entry st) \<longrightarrow>
         run_entries w source (entry # entries) st = run_entries w source [entry] st)
   \<and> (\<forall>st. MAX_POSTS_PER_RUN \<le> posted (run_feeds w [feed_url] st) \<longrightarrow>
         run_feeds w (feed_url # feed_urls) st = run_feeds w [feed_url] st)
   \<and> (\<forall>st. \<not> MAX_POSTS_PER_RUN \<le> posted st \<longrightarrow>
         fetched (run_feeds w [feed_url] st) = fetched st @ [feed_url])
   \<and> (\<exists>k. fetched (snd (run_bot w file)) = take k FEEDS)"
proof -
  have inv: "length (successes (snd (run_bot w file))) = posted (snd (run_bot w file))
      \<and> posted (snd (run_bot w file)) \<le> MAX_POSTS_PER_RUN"
    using run_bot_inv [of w "file"] by (simp add: run_inv_def)
  have pre: "\<exists>k. fetched (snd (run_bot w file)) = take k FEEDS"
    using run_feeds_fetched_prefix
      [of w FEEDS "\<lparr>seen = load_seen file, posted = 0, calls = [], fetched = []\<rparr>"]
    by (simp add: run_bot_def Let_def)
  have m: "MAX_POSTS_PER_RUN = 4" by (simp add: MAX_POSTS_PER_RUN_def)
  have c1: "\<forall>st. MAX_POSTS_PER_RUN \<le> posted st \<longrightarrow>
      run_entries w source entries st = st \<and> run_feeds w feed_urls st = st"
    by (simp add: run_entries_capped run_feeds_capped)
  have c2: "\<forall>st. MAX_POSTS_PER_RUN \<le> posted st \<longrightarrow>
      fetched (run_feeds w feed_urls st) = fetched st
      \<and> calls (run_feeds w feed_urls st) = calls st"
    by (simp add: run_feeds_capped)
  have c3: "\<forall>st. MAX_POSTS_PER_RUN \<le> posted (process_entry w source entry st) \<longrightarrow>
      run_entries w source (entry # entries) st = run_entries w source [entry] st"
    by (intro allI impI) (rule run_entries_stop_after)
  have c4: "\<forall>st. MAX_POSTS_PER_RUN \<le> posted (run_feeds w [feed_url] st) \<longrightarrow>
      run_feeds w (feed_url # feed_urls) st = run_feeds w [feed_url] st"
    by (intro allI impI) (rule run_feeds_stop_after)
  have c5: "\<forall>st. \<not> MAX_POSTS_PER_RUN \<le> posted st \<longrightarrow>
      fetched (run_feeds w [feed_url] st) = fetched st @ [feed_url]"
    by (intro allI impI) (rule run_feeds_fetches_below_cap)
  from inv have i1: "length (successes (snd (run_bot w file))) = posted (snd (run_bot w file))"
    and i2: "posted (snd (run_bot w file)) \<le> MAX_POSTS_PER_RUN" by simp_all
  show ?thesis by (intro conjI) (fact m i1 i2 c1 c2 c3 c4 c5 pre)+
qed

theorem posts_capped_witness:
  "posted (snd (run_bot (world_of two_feeds Posted) None)) \<le> MAX_POSTS_PER_RUN
   \<and> run_entries (world_of two_feeds Posted) (ascii ''Source'')
        [item ''Patriots sign new TE'' ''https://x.com/a'']
        \<lparr>seen = {}, posted = 4, calls = [], fetched = []\<rparr>
       = \<lparr>seen = {}, posted = 4, calls = [], fetched = []\<rparr>
   \<and> run_feeds (world_of two_feeds Posted) FEEDS
        \<lparr>seen = {}, posted = 4, calls = [], fetched = []\<rparr>
       = \<lparr>seen = {}, posted = 4, calls = [], fetched = []\<rparr>
   \<and> fetched (run_feeds (world_of two_feeds Posted) [FEEDS ! 1]
        \<lparr>seen = {}, posted = 3, calls = [], fetched = [FEEDS ! 0]\<rparr>) = [FEEDS ! 0, FEEDS ! 1]"
proof -
  let ?w = "world_of two_feeds Posted"
  let ?full = "\<lparr>seen = {}, posted = 4, calls = [], fetched = []\<rparr>"
  let ?below = "\<lparr>seen = {}, posted = 3, calls = [], fetched = [FEEDS ! 0]\<rparr>"
  note t = posts_capped [of ?w None "ascii ''Source''"
      "[item ''Patriots sign new TE'' ''https://x.com/a'']" FEEDS
      "item ''Patriots sign new TE'' ''https://x.com/a''" "FEEDS ! 1"]
  have a: "MAX_POSTS_PER_RUN \<le> posted ?full" by (simp add: MAX_POSTS_PER_RUN_def)
  have b: "\<not> MAX_POSTS_PER_RUN \<le> posted ?below" by (simp add: MAX_POSTS_PER_RUN_def)
  from t a have "run_entries ?w (ascii ''Source'')
        [item ''Patriots sign new TE'' ''https://x.com/a''] ?full = ?full
      \<and> run_feeds ?w FEEDS ?full = ?full" by blast
  moreover from t b have "fetched (run_feeds ?w [FEEDS ! 1] ?below) = fetched ?below @ [FEEDS ! 1]"
    by blast
  moreover from t have "posted (snd (run_bot ?w None)) \<le> MAX_POSTS_PER_RUN" by blast
  ultimately show ?thesis by simp
qed

text \<open>
  Claim C10. Within a run no two successful publishes have the same fingerprint. The
  fingerprints of the successful publishes are in the in-memory seen-set: a fingerprint
  enters it with the successful publish of its entry, the seen-set only grows, and an
  entry whose fingerprint is in the seen-set is skipped, whether or not the seen-set has
  been saved.
\<close>

theorem no_duplicate_posts:
  "distinct (map a_hash (successes (snd (run_bot w file))))
   \<and> a_hash ` set (successes (snd (run_bot w file))) \<subseteq> seen (snd (run_bot w file))
   \<and> (\<forall>st. eligible entry \<and> fingerprint entry \<notin> seen st
            \<and> a_outcome (attempt_of w source entry st) = Posted \<longrightarrow>
          fingerprint entry \<in> seen (process_entry w source entry st))
   \<and> (\<forall>st. seen st \<subseteq> seen (process_entry w source entry st))
   \<and> (\<forall>st. fingerprint entry \<in> seen st \<longrightarrow> process_entry w source entry st = st)"
  using run_bot_inv [of w "file"]
  by (auto simp: run_inv_def process_entry_attempt process_entry_skip
      dest: subsetD [OF process_entry_seen_mono])

theorem no_duplicate_posts_witness:
  "distinct (map a_hash (successes (snd (run_bot (world_of two_feeds Posted) None))))
   \<and> fingerprint (item ''Patriots sign new TE'' ''https://x.com/a'')
       \<in> seen (process_entry (world_of two_feeds Posted) (ascii ''Source'')
                 (item ''Patriots sign new TE'' ''https://x.com/a'')
                 \<lparr>seen = {}, posted = 0, calls = [], fetched = []\<rparr>)
   \<and> process_entry (world_of two_feeds Posted) (ascii ''Source'')
        (item ''Patriots sign new TE'' ''https://x.com/a'')
        \<lparr>seen = {fingerprint (item ''Patriots sign new TE'' ''https://x.com/a'')}, posted = 1,
          calls = [], fetched = []\<rparr>
       = \<lparr>seen = {fingerprint (item ''Patriots sign new TE'' ''https://x.com/a'')}, posted = 1,
          calls = [], fetched = []\<rparr>"
proof -
  let ?w = "world_of two_feeds Posted"
  let ?a = "item ''Patriots sign new TE'' ''https://x.com/a''"
  have p: "a_outcome (attempt_of ?w (ascii ''Source'') ?a \<lparr>seen = {}, posted = 0, calls = [], fetched = []\<rparr>) = Posted"
    by (simp add: attempt_of_def world_of_def Let_def)
  from no_duplicate_posts [of ?w None ?a "ascii ''Source''"] eligible_a p
  show ?thesis by auto
qed

text \<open>
  Claim C3. The feeds hold two entries in all (in either order): one that is relevant,
  has a title and a link and a fingerprint that is not in the persisted seen-set, and one
  whose title is irrelevant. Every publish succeeds. Then the run makes exactly one call,
  which succeeds, for the relevant entry; the persisted seen-set is the old one plus that
  one fingerprint; and a second run from the persisted seen-set makes no call.
\<close>

theorem one_relevant_item_end_to_end:
  assumes items: "map snd (feed_items w FEEDS) = [a, b] \<or> map snd (feed_items w FEEDS) = [b, a]"
    and relevant: "eligible a"
    and never_seen: "fingerprint a \<notin> load_seen file"
    and irrelevant: "\<not> looks_like_patriots (Some (strip (or_empty (e_title b))))"
    and publish_ok: "\<forall>n t m. w_publish w n t m = Posted"
  shows "map a_outcome (calls (snd (run_bot w file))) = [Posted]
       \<and> map a_hash (calls (snd (run_bot w file))) = [fingerprint a]
       \<and> posted (snd (run_bot w file)) = 1
       \<and> load_seen (fst (run_bot w file)) = insert (fingerprint a) (load_seen file)
       \<and> calls (snd (run_bot w (fst (run_bot w file)))) = []
       \<and> posted (snd (run_bot w (fst (run_bot w file)))) = 0"
proof -
  have b: "\<not> eligible b" using irrelevant by (simp add: eligible_def)
  from one_new_item [OF items relevant b never_seen publish_ok] obtain c where
    r: "run_items w (feed_items w FEEDS) \<lparr>seen = load_seen file, posted = 0, calls = [], fetched = []\<rparr>
          = \<lparr>seen = insert (fingerprint a) (load_seen file), posted = 1, calls = [c], fetched = []\<rparr>"
    and c: "a_hash c = fingerprint a" "a_outcome c = Posted"
    by blast
  have r1: "calls (snd (run_bot w file)) = [c]" "posted (snd (run_bot w file)) = 1"
    by (simp_all add: run_bot_items r)
  have p: "load_seen (fst (run_bot w file)) = insert (fingerprint a) (load_seen file)"
    using c by (simp add: run_bot_persisted r1 successes_def)
  let ?init = "\<lparr>seen = load_seen (fst (run_bot w file)), posted = 0, calls = [], fetched = []\<rparr>"
  have "fingerprint a \<in> seen ?init" by (simp add: p)
  from nothing_new [OF items b this]
  have "run_items w (feed_items w FEEDS) ?init = ?init" .
  then have r2: "calls (snd (run_bot w (fst (run_bot w file)))) = []"
    "posted (snd (run_bot w (fst (run_bot w file)))) = 0"
    by (simp_all add: run_bot_items)
  show ?thesis using c by (simp add: r1 r2 p)
qed

theorem one_relevant_item_end_to_end_witness:
  "posted (snd (run_bot (world_of two_feeds Posted) None)) = 1
   \<and> load_seen (fst (run_bot (world_of two_feeds Posted) None))
       = {fingerprint (item ''Patriots sign new TE'' ''https://x.com/a'')}
   \<and> calls (snd (run_bot (world_of two_feeds Posted)
                      (fst (run_bot (world_of two_feeds Posted) None)))) = []"
proof -
  let ?w = "world_of two_feeds Posted"
  let ?a = "item ''Patriots sign new TE'' ''https://x.com/a''"
  let ?b = "item ''Celtics win opener'' ''https://x.com/b''"
  have items: "map snd (feed_items ?w FEEDS) = [?a, ?b] \<or> map snd (feed_items ?w FEEDS) = [?b, ?a]"
    by (simp add: two_feeds_items)
  have new: "fingerprint ?a \<notin> load_seen None" by (simp add: load_seen_def)
  have pub: "\<forall>n t m. w_publish ?w n t m = Posted" by (simp add: world_of_def)
  from one_relevant_item_end_to_end [OF items eligible_a new irrelevant_b pub]
  show ?thesis by (simp add: load_seen_def)
qed

section \<open>Publish failures\<close>

theorem publish_failure_keeps_item:
  "(\<forall>st. eligible entry \<and> fingerprint entry \<notin> seen st
          \<and> a_outcome (attempt_of w source entry st) \<noteq> Posted \<longrightarrow>
        process_entry w source entry st = st\<lparr>calls := calls st @ [attempt_of w source entry st]\<rparr>
        \<and> (posted st < MAX_POSTS_PER_RUN \<longrightarrow>
             run_entries w source (entry # entries) st =
               run_entries w source entries
                 (st\<lparr>calls := calls st @ [attempt_of w source entry st]\<rparr>)))
   \<and> load_seen (fst (run_bot w file)) =
        load_seen file \<union> a_hash ` set (successes (snd (run_bot w file)))
   \<and> (\<forall>st. eligible entry \<and> fingerprint entry \<notin> seen st \<longrightarrow>
         calls (process_entry w' source' entry st) = calls st @ [attempt_of w' source' entry st])"
  by (auto simp: process_entry_attempt run_bot_persisted)

theorem publish_failure_keeps_item_witness:
  "process_entry (world_of two_feeds Failed) (ascii ''Source'')
        (item ''Patriots sign new TE'' ''https://x.com/a'') \<lparr>seen = {}, posted = 0, calls = [], fetched = []\<rparr>
     = \<lparr>seen = {}, posted = 0,
        calls = [attempt_of (world_of two_feeds Failed) (ascii ''Source'')
                   (item ''Patriots sign new TE'' ''https://x.com/a'')
                   \<lparr>seen = {}, posted = 0, calls = [], fetched = []\<rparr>],
        fetched = []\<rparr>
   \<and> a_outcome (attempt_of (world_of two_feeds Failed) (ascii ''Source'')
                   (item ''Patriots sign new TE'' ''https://x.com/a'')
                   \<lparr>seen = {}, posted = 0, calls = [], fetched = []\<rparr>) = Failed
   \<and> calls (process_entry (world_of two_feeds Posted) (ascii ''Source'')
        (item ''Patriots sign new TE'' ''https://x.com/a'') \<lparr>seen = {}, posted = 0, calls = [], fetched = []\<rparr>)
     = [attempt_of (world_of two_feeds Posted) (ascii ''Source'')
                   (item ''Patriots sign new TE'' ''https://x.com/a'')
                   \<lparr>seen = {}, posted = 0, calls = [], fetched = []\<rparr>]"
proof -
  let ?w = "world_of two_feeds Failed"
  let ?a = "item ''Patriots sign new TE'' ''https://x.com/a''"
  have p: "a_outcome (attempt_of ?w (ascii ''Source'') ?a \<lparr>seen = {}, posted = 0, calls = [], fetched = []\<rparr>) = Failed"
    by (simp add: attempt_of_def world_of_def Let_def)
  from publish_failure_keeps_item [of ?a ?w "ascii ''Source''" "[]" None
      "world_of two_feeds Posted" "ascii ''Source''"] eligible_a p
  show ?thesis by auto
qed

section \<open>The image resolver: results\<close>

text \<open>
  Claim C6 at a feed item with an image enclosure whose \<^verbatim>\<open>href\<close> is empty and a
  thumbnail with a URL: the resolver returns the empty string of the enclosure and does
  not reach the thumbnail. Without the enclosure it returns the thumbnail's URL, and an
  empty media-content URL does not stop it either.
\<close>

theorem extract_image_url_empty_enclosure:
  "extract_image_url
     \<lparr>e_title = Some (ascii ''Patriots sign new TE''), e_link = Some (ascii ''https://x.com/a''),
      e_media_content = [],
      e_links = [\<lparr>l_rel = Some (ascii ''enclosure''), l_type = Some (ascii ''image/jpeg''),
                  l_href = Some []\<rparr>],
      e_media_thumbnail = [\<lparr>m_url = Some (ascii ''https://x.com/t.jpg'')\<rparr>],
      e_content = [], e_summary = None\<rparr> = Some []
   \<and> extract_image_url
     \<lparr>e_title = Some (ascii ''Patriots sign new TE''), e_link = Some (ascii ''https://x.com/a''),
      e_media_content = [],
      e_links = [],
      e_media_thumbnail = [\<lparr>m_url = Some (ascii ''https://x.com/t.jpg'')\<rparr>],
      e_content = [], e_summary = None\<rparr> = Some (ascii ''https://x.com/t.jpg'')
   \<and> extract_image_url
     \<lparr>e_title = Some (ascii ''Patriots sign new TE''), e_link = Some (ascii ''https://x.com/a''),
      e_media_content = [\<lparr>m_url = Some []\<rparr>],
      e_links = [],
      e_media_thumbnail = [\<lparr>m_url = Some (ascii ''https://x.com/t.jpg'')\<rparr>],
      e_content = [], e_summary = None\<rparr> = Some (ascii ''https://x.com/t.jpg'')"
  by (simp add: extract_image_url_def truthy_def or_empty_def ascii_def Let_def)

section \<open>The fingerprint and the parts of the URL it ignores\<close>







































end
